theory Spec2Isabelle
  imports Complex_Main "HOL-Library.Multiset"
begin

section \<open>Data model of ls.go\<close>

text \<open>
  The Go structs \<^verbatim>\<open>Options\<close> and \<^verbatim>\<open>Listing\<close> as records. Go strings are byte
  strings: \<^typ>\<open>string\<close> is a list of bytes and \<^const>\<open>length\<close> is Go's \<^verbatim>\<open>len\<close>.
  The fields \<^verbatim>\<open>one\<close>, \<^verbatim>\<open>help\<close>, \<^verbatim>\<open>group\<close>, \<^verbatim>\<open>size\<close> and \<^verbatim>\<open>time\<close> carry a suffix
  because their names are taken in HOL.
\<close>

record Options =
  all :: bool
  long :: bool
  human :: bool
  one_o :: bool
  dir :: bool
  color :: bool
  sortReverse :: bool
  sortTime :: bool
  sortSize :: bool
  help_o :: bool
  dirsFirst :: bool

record Listing =
  permissions :: string
  numHardLinks :: string
  owner :: string
  group_l :: string
  size_l :: string
  epochNano :: int
  month :: string
  day :: string
  time_l :: string
  name :: string
  linkName :: string
  linkOrphan :: bool
  isSocket :: bool
  isPipe :: bool
  isBlock :: bool
  isCharacter :: bool

text \<open>The zero values \<^verbatim>\<open>Options{}\<close> and \<^verbatim>\<open>Listing{}\<close> of Go.\<close>

definition zeroOptions :: Options where
  "zeroOptions = \<lparr> all = False, long = False, human = False, one_o = False, dir = False,
     color = False, sortReverse = False, sortTime = False, sortSize = False,
     help_o = False, dirsFirst = False \<rparr>"

definition zeroListing :: Listing where
  "zeroListing = \<lparr> permissions = [], numHardLinks = [], owner = [], group_l = [],
     size_l = [], epochNano = 0, month = [], day = [], time_l = [], name = [],
     linkName = [], linkOrphan = False, isSocket = False, isPipe = False,
     isBlock = False, isCharacter = False \<rparr>"

text \<open>
  Run-time panics of Go are values: an index or a slice bound out of range.
\<close>

datatype panic = IndexOutOfRange | SliceOutOfRange

section \<open>Go operations on strings and maps\<close>

text \<open>
  Indexing \<^verbatim>\<open>s[i]\<close> and slicing \<^verbatim>\<open>s[lo:hi]\<close> panic outside the string; \<open>slice\<close> with
  \<open>hi = length s\<close> is \<^verbatim>\<open>s[lo:]\<close>. A panic ends the computation: \<open>bindP\<close> passes it on.
\<close>

definition index :: "string \<Rightarrow> nat \<Rightarrow> panic + char" where
  "index s i = (if i < length s then Inr (s ! i) else Inl IndexOutOfRange)"

definition slice :: "string \<Rightarrow> nat \<Rightarrow> nat \<Rightarrow> panic + string" where
  "slice s lo hi =
     (if lo \<le> hi \<and> hi \<le> length s then Inr (take (hi - lo) (drop lo s))
      else Inl SliceOutOfRange)"

definition bindP :: "panic + 'a \<Rightarrow> ('a \<Rightarrow> panic + 'b) \<Rightarrow> panic + 'b" where
  "bindP r f = (case r of Inl e \<Rightarrow> Inl e | Inr v \<Rightarrow> f v)"

text \<open>
  Conditions that may panic: \<open>andP\<close> is Go's short-circuit \<^verbatim>\<open>&&\<close> (the right operand is
  looked at only when the left one is true), \<open>ifP\<close> an \<^verbatim>\<open>if\<close>/\<^verbatim>\<open>else\<close> on such a condition.
\<close>

definition andP :: "panic + bool \<Rightarrow> panic + bool \<Rightarrow> panic + bool" where
  "andP a b = (case a of Inl e \<Rightarrow> Inl e | Inr t \<Rightarrow> if t then b else Inr False)"

definition ifP :: "panic + bool \<Rightarrow> panic + 'a \<Rightarrow> panic + 'a \<Rightarrow> panic + 'a" where
  "ifP c t e = (case c of Inl p \<Rightarrow> Inl p | Inr b \<Rightarrow> if b then t else e)"

text \<open>
  \<^verbatim>\<open>strings.Split(s, sep)\<close> for a separator of one byte, which is what every call in
  ls.go passes (\<^verbatim>\<open>"."\<close>, \<^verbatim>\<open>":"\<close>, \<^verbatim>\<open>"="\<close>): the pieces between the separators, one
  more than there are separators, so never an empty list.
\<close>

fun Split :: "string \<Rightarrow> char \<Rightarrow> string list" where
  "Split [] sep = [[]]"
| "Split (x # xs) sep =
     (if x = sep then [] # Split xs sep
      else (case Split xs sep of
              w # ws \<Rightarrow> (x # w) # ws
            | [] \<Rightarrow> [[x]]))"

text \<open>
  \<^verbatim>\<open>strings.Replace(s, old, new, 1)\<close> for a non-empty \<^verbatim>\<open>old\<close>: the first occurrence of
  \<^verbatim>\<open>old\<close> is replaced, and \<^verbatim>\<open>s\<close> is returned unchanged when there is none.
\<close>

fun Replace1 :: "string \<Rightarrow> string \<Rightarrow> string \<Rightarrow> string" where
  "Replace1 [] old new = []"
| "Replace1 (x # xs) old new =
     (if take (length old) (x # xs) = old then new @ drop (length old) (x # xs)
      else x # Replace1 xs old new)"

text \<open>\<^verbatim>\<open>strconv.Itoa\<close> and the verb \<^verbatim>\<open>%d\<close>: decimal digits, with a minus sign below zero.\<close>

definition digitChar :: "int \<Rightarrow> char" where
  "digitChar d = char_of (of_char (CHR ''0'') + d)"

function showDec :: "int \<Rightarrow> string" where
  "showDec n = (if n < 10 then [digitChar n] else showDec (n div 10) @ [digitChar (n mod 10)])"
  by pat_completeness auto
termination
  by (relation "measure nat") auto

declare showDec.simps [simp del]

definition Itoa :: "int \<Rightarrow> string" where
  "Itoa i = (if i < 0 then CHR ''-'' # showDec (- i) else showDec i)"

text \<open>
  The global \<^verbatim>\<open>colorMap\<close> is a \<^verbatim>\<open>map[string]string\<close>; reading a key that is not there
  gives the empty string.
\<close>

type_synonym colorMap = "string \<rightharpoonup> string"

definition lookup :: "colorMap \<Rightarrow> string \<Rightarrow> string" where
  "lookup m k = (case m k of None \<Rightarrow> [] | Some v \<Rightarrow> v)"

definition ESC :: char where
  "ESC = CHR 0x1B"

section \<open>The reversal step of sortListings\<close>

text \<open>
  The block guarded by \<^verbatim>\<open>options.sortReverse\<close> at the end of \<^verbatim>\<open>sortListings\<close>:
  \<^verbatim>\<open>middleIndex := len(listings) / 2; if len(listings)%2 == 0 { middleIndex-- }\<close>
  followed by the swap loop over \<^verbatim>\<open>i := 0; i <= middleIndex; i++\<close>. Indices are Go
  \<^verbatim>\<open>int\<close>s, so \<^verbatim>\<open>middleIndex\<close> and \<^verbatim>\<open>rearIndex\<close> are integers here; a read or
  write outside the slice is the value \<^const>\<open>None\<close>.
\<close>

function reverseLoop :: "nat \<Rightarrow> int \<Rightarrow> 'a list \<Rightarrow> 'a list option" where
  "reverseLoop i middleIndex listings =
     (if int i \<le> middleIndex then
        (let frontIndex = int i;
             rearIndex = int (length listings) - 1 - int i
         in if frontIndex = rearIndex then Some listings
            else if 0 \<le> rearIndex \<and> rearIndex < int (length listings)
                    \<and> frontIndex < int (length listings) then
              (let tmp = listings ! nat frontIndex;
                   listings1 = listings[nat frontIndex := listings ! nat rearIndex];
                   listings2 = listings1[nat rearIndex := tmp]
               in reverseLoop (i + 1) middleIndex listings2)
            else None)
      else Some listings)"
  by pat_completeness auto
termination
  by (relation "measure (\<lambda>(i, middleIndex, listings). nat (middleIndex + 1 - int i))") auto

declare reverseLoop.simps [simp del]

definition reverseListings :: "'a list \<Rightarrow> 'a list option" where
  "reverseListings listings =
     (let middleIndex = int (length listings) div 2;
          middleIndex = (if int (length listings) mod 2 = 0 then middleIndex - 1 else middleIndex)
      in reverseLoop 0 middleIndex listings)"

section \<open>Comparison functions\<close>

text \<open>
  A Go \<^verbatim>\<open>uint8\<close> is read through \<^const>\<open>of_char\<close>. \<^verbatim>\<open>strings.ToLower\<close> belongs to Go's
  standard library: on a string of ASCII bytes it maps \<^verbatim>\<open>A\<close>\<dots>\<^verbatim>\<open>Z\<close> to \<^verbatim>\<open>a\<close>\<dots>\<^verbatim>\<open>z\<close> and
  keeps every other byte and the length; \<open>ToLower\<close> is that mapping. (On names with
  bytes outside ASCII the library works on code points and may change the byte length;
  such names are outside this model.)
\<close>

definition byte :: "char \<Rightarrow> nat" where
  "byte c = of_char c"

definition toLowerByte :: "char \<Rightarrow> char" where
  "toLowerByte c = (if byte (CHR ''A'') \<le> byte c \<and> byte c \<le> byte (CHR ''Z'')
                    then char_of (byte c + 32) else c)"

definition ToLower :: "string \<Rightarrow> string" where
  "ToLower s = map toLowerByte s"

text \<open>
  \<^verbatim>\<open>compareName\<close>: the \<^verbatim>\<open>for\<close> loop over \<^verbatim>\<open>i < smallerLen\<close> returns from inside
  (\<open>Some\<close>) or runs to its end (\<open>None\<close>), after which the lengths decide.
\<close>

function compareNameLoop :: "string \<Rightarrow> string \<Rightarrow> nat \<Rightarrow> nat \<Rightarrow> int option" where
  "compareNameLoop aNameLower bNameLower smallerLen i =
     (if i < smallerLen then
        (if byte (aNameLower ! i) < byte (bNameLower ! i) then Some (- 1)
         else if byte (aNameLower ! i) > byte (bNameLower ! i) then Some 1
         else compareNameLoop aNameLower bNameLower smallerLen (i + 1))
      else None)"
  by pat_completeness auto
termination
  by (relation "measure (\<lambda>(a, b, smallerLen, i). smallerLen - i)") auto

declare compareNameLoop.simps [simp del]

definition compareName :: "Listing \<Rightarrow> Listing \<Rightarrow> int" where
  "compareName a b =
     (let aNameLower = ToLower (name a);
          bNameLower = ToLower (name b);
          smallerLen = (if length (name a) < length (name b) then length (name a)
                        else length (name b))
      in case compareNameLoop aNameLower bNameLower smallerLen 0 of
           Some r \<Rightarrow> r
         | None \<Rightarrow>
             (if length (name a) < length (name b) then - 1
              else if length (name b) < length (name a) then 1
              else 0))"

definition compareTime :: "Listing \<Rightarrow> Listing \<Rightarrow> int" where
  "compareTime a b = (if epochNano a \<ge> epochNano b then - 1 else 1)"

text \<open>
  \<^verbatim>\<open>strconv.Atoi\<close> of Go's standard library on a 64-bit \<^verbatim>\<open>int\<close>, as its general
  path \<^verbatim>\<open>ParseInt(s, 10, 0)\<close> computes it. \<^verbatim>\<open>ParseUint\<close> reads the bytes from left to
  right: a byte that is not a decimal digit ends it with a syntax error and the value
  \<open>0\<close>; a value that leaves the \<^verbatim>\<open>uint64\<close> range ends it with a range error and the
  largest \<^verbatim>\<open>uint64\<close>, whatever follows. \<^verbatim>\<open>ParseInt\<close> takes one sign off, gives \<open>0\<close> on a
  syntax error and clamps to the \<^verbatim>\<open>int64\<close> range. (For strings of fewer than 19 bytes
  \<^verbatim>\<open>Atoi\<close> has a fast path, which gives the same value: the number fits.) The callers
  in \<^verbatim>\<open>ls.go\<close> drop the error, as in \<^verbatim>\<open>a_size, _ := strconv.Atoi(a.size)\<close>.
\<close>

definition isDigit :: "char \<Rightarrow> bool" where
  "isDigit c = (byte (CHR ''0'') \<le> byte c \<and> byte c \<le> byte (CHR ''9''))"

datatype numError = ErrSyntax | ErrRange

fun ParseUintLoop :: "nat \<Rightarrow> string \<Rightarrow> nat \<times> numError option" where
  "ParseUintLoop n [] = (n, None)"
| "ParseUintLoop n (c # cs) =
     (if \<not> isDigit c then (0, Some ErrSyntax)
      else if n \<ge> (2 ^ 64 - 1) div 10 + 1 then (2 ^ 64 - 1, Some ErrRange)
      else
        (let n1 = n * 10 + (byte c - byte (CHR ''0''))
         in if n1 > 2 ^ 64 - 1 then (2 ^ 64 - 1, Some ErrRange)
            else ParseUintLoop n1 cs))"

definition ParseUint :: "string \<Rightarrow> nat \<times> numError option" where
  "ParseUint s = (if s = [] then (0, Some ErrSyntax) else ParseUintLoop 0 s)"

definition ParseInt :: "string \<Rightarrow> int \<times> numError option" where
  "ParseInt s =
     (if s = [] then (0, Some ErrSyntax)
      else
        (let neg = (hd s = CHR ''-'');
             s' = (if hd s = CHR ''+'' \<or> hd s = CHR ''-'' then tl s else s);
             (un, err) = ParseUint s'
         in if err = Some ErrSyntax then (0, err)
            else if \<not> neg \<and> un \<ge> 2 ^ 63 then (2 ^ 63 - 1, Some ErrRange)
            else if neg \<and> un > 2 ^ 63 then (- (2 ^ 63), Some ErrRange)
            else (if neg then - int un else int un, None)))"

definition Atoi :: "string \<Rightarrow> int" where
  "Atoi s = fst (ParseInt s)"

definition compareSize :: "Listing \<Rightarrow> Listing \<Rightarrow> int" where
  "compareSize a b =
     (let a_size = Atoi (size_l a);
          b_size = Atoi (size_l b)
      in if a_size \<ge> b_size then - 1 else 1)"

section \<open>sortListings\<close>

text \<open>
  One run of the inner \<^verbatim>\<open>for i := 0; i < len(listings)-1; i++\<close> loop, from index \<open>i\<close>
  on, with the flag \<^verbatim>\<open>done\<close>: neighbours are exchanged whenever
  \<^verbatim>\<open>comparisonFunction(a, b) > -1\<close>. The loop guard keeps \<open>i\<close> and \<open>i + 1\<close> inside the
  slice.
\<close>

function bubblePass ::
  "(Listing \<Rightarrow> Listing \<Rightarrow> int) \<Rightarrow> nat \<Rightarrow> Listing list \<Rightarrow> bool \<Rightarrow> Listing list \<times> bool" where
  "bubblePass comparisonFunction i listings done =
     (if int i < int (length listings) - 1 then
        (let a = listings ! i;
             b = listings ! (i + 1)
         in if comparisonFunction a b > - 1 then
              bubblePass comparisonFunction (i + 1)
                (listings[i := listings ! (i + 1), i + 1 := a]) False
            else bubblePass comparisonFunction (i + 1) listings done)
      else (listings, done))"
  by pat_completeness auto
termination
  by (relation "measure (\<lambda>(c, i, listings, d). length listings - i)") auto

declare bubblePass.simps [simp del]

text \<open>
  The outer \<^verbatim>\<open>for { ... if done { break } }\<close> has no bound, so it is a partial
  function: \<^const>\<open>None\<close> is the run that never leaves the loop.
\<close>

partial_function (option) sortLoop ::
  "(Listing \<Rightarrow> Listing \<Rightarrow> int) \<Rightarrow> Listing list \<Rightarrow> Listing list option" where
  "sortLoop comparisonFunction listings =
     (case bubblePass comparisonFunction 0 listings True of
        (listings', done) \<Rightarrow>
          if done then Some listings' else sortLoop comparisonFunction listings')"

text \<open>
  \<^verbatim>\<open>sortListings\<close> picks the comparison function from the options, runs the exchange
  loop and then the reversal step when \<^verbatim>\<open>options.sortReverse\<close> is set. The slice is
  updated in place in Go; here the sorted slice is the result.
\<close>

definition sortListings :: "Options \<Rightarrow> Listing list \<Rightarrow> Listing list option" where
  "sortListings options listings =
     (let comparisonFunction =
            (if sortTime options then compareTime
             else if sortSize options then compareSize
             else compareName)
      in case sortLoop comparisonFunction listings of
           None \<Rightarrow> None
         | Some listings' \<Rightarrow>
             (if sortReverse options then reverseListings listings' else Some listings'))"

section \<open>Notions used to state the sorting properties\<close>

text \<open>
  The comparison of names as the specification words it: byte-wise on the lower-cased
  names, the first differing byte decides, a strict prefix comes first, equal names are
  equal.
\<close>

fun lexCompare :: "nat list \<Rightarrow> nat list \<Rightarrow> int" where
  "lexCompare [] [] = 0"
| "lexCompare [] (y # ys) = - 1"
| "lexCompare (x # xs) [] = 1"
| "lexCompare (x # xs) (y # ys) =
     (if x < y then - 1 else if y < x then 1 else lexCompare xs ys)"

definition nameKey :: "Listing \<Rightarrow> nat list" where
  "nameKey l = map byte (ToLower (name l))"

text \<open>The names for which \<open>ToLower\<close> is what the library does: all bytes below 128.\<close>

definition isASCII :: "string \<Rightarrow> bool" where
  "isASCII s = list_all (\<lambda>c. byte c < 128) s"

text \<open>
  The number of pairs of positions \<open>i < j\<close> whose elements stand in relation \<open>R\<close>:
  the measure that every exchange of the sort decreases.
\<close>

fun inversions :: "('a \<Rightarrow> 'a \<Rightarrow> bool) \<Rightarrow> 'a list \<Rightarrow> nat" where
  "inversions R [] = 0"
| "inversions R (x # xs) = length (filter (R x) xs) + inversions R xs"

definition swapsDecrease ::
  "(Listing \<Rightarrow> Listing \<Rightarrow> int) \<Rightarrow> (Listing \<Rightarrow> Listing \<Rightarrow> bool) \<Rightarrow> Listing list \<Rightarrow> bool" where
  "swapsDecrease cmp R xs \<longleftrightarrow>
     (\<forall>zs. mset zs = mset xs \<longrightarrow>
        (\<forall>k. k + 1 < length zs \<longrightarrow> cmp (zs ! k) (zs ! (k + 1)) > - 1 \<longrightarrow>
           R (zs ! k) (zs ! (k + 1)) \<and> \<not> R (zs ! (k + 1)) (zs ! k)))"

text \<open>Listings that differ from the zero value in one field, for concrete inputs.\<close>

definition named :: "string \<Rightarrow> Listing" where
  "named n = zeroListing \<lparr> name := n \<rparr>"

definition sized :: "string \<Rightarrow> Listing" where
  "sized s = zeroListing \<lparr> size_l := s \<rparr>"

text \<open>
  The size ordering as the specification words it: the integer portion of the displayed
  size string is its leading run of decimal digits (the \<open>1\<close> of \<open>1.5K\<close>), and the
  listings are in descending order of it.
\<close>

definition digitsValue :: "string \<Rightarrow> nat" where
  "digitsValue s = foldl (\<lambda>n ch. n * 10 + (byte ch - byte (CHR ''0''))) 0 s"

definition integerPortion :: "string \<Rightarrow> int" where
  "integerPortion s = int (digitsValue (takeWhile isDigit s))"

definition descendingByIntegerPortion :: "Listing list \<Rightarrow> bool" where
  "descendingByIntegerPortion ls =
     sorted_wrt (\<lambda>a b. integerPortion (size_l a) \<ge> integerPortion (size_l b)) ls"

section \<open>The color table\<close>

definition colorFgBlack :: int where "colorFgBlack = 30"
definition colorFgRed :: int where "colorFgRed = 31"
definition colorFgGreen :: int where "colorFgGreen = 32"
definition colorFgBrown :: int where "colorFgBrown = 33"
definition colorFgBlue :: int where "colorFgBlue = 34"
definition colorFgMagenta :: int where "colorFgMagenta = 35"
definition colorFgCyan :: int where "colorFgCyan = 36"
definition colorFgWhite :: int where "colorFgWhite = 37"
definition colorBgBlack :: int where "colorBgBlack = 40"
definition colorBgRed :: int where "colorBgRed = 41"
definition colorBgGreen :: int where "colorBgGreen = 42"
definition colorBgBrown :: int where "colorBgBrown = 43"
definition colorBgBlue :: int where "colorBgBlue = 44"
definition colorBgMagenta :: int where "colorBgMagenta = 45"
definition colorBgCyan :: int where "colorBgCyan = 46"
definition colorBgWhite :: int where "colorBgWhite = 47"

text \<open>
  \<^verbatim>\<open>getPartialColor\<close> writes up to three pieces into a buffer: the separator, the
  intensity prefix and the color number.
\<close>

definition getPartialColor :: "bool \<Rightarrow> char \<Rightarrow> string" where
  "getPartialColor foreground letter =
     (if foreground \<and> letter = CHR ''x'' then ''0;''
      else if \<not> foreground \<and> letter \<noteq> CHR ''x'' then '';''
      else [])
     @
     (if foreground \<and> byte letter \<ge> 97 \<and> byte letter \<le> 122 then ''0;''
      else if foreground \<and> byte letter \<ge> 65 \<and> byte letter \<le> 90 then ''1;''
      else [])
     @
     (if letter = CHR ''a'' then (if foreground then Itoa colorFgBlack else Itoa colorBgBlack)
      else if letter = CHR ''b'' then (if foreground then Itoa colorFgRed else Itoa colorBgRed)
      else if letter = CHR ''c'' then (if foreground then Itoa colorFgGreen else Itoa colorBgGreen)
      else if letter = CHR ''d'' then (if foreground then Itoa colorFgBrown else Itoa colorBgBrown)
      else if letter = CHR ''e'' then (if foreground then Itoa colorFgBlue else Itoa colorBgBlue)
      else if letter = CHR ''f'' then (if foreground then Itoa colorFgMagenta else Itoa colorBgMagenta)
      else if letter = CHR ''g'' then (if foreground then Itoa colorFgCyan else Itoa colorBgCyan)
      else if letter = CHR ''h'' then (if foreground then Itoa colorFgWhite else Itoa colorBgWhite)
      else if letter = CHR ''A'' then Itoa colorFgBlack
      else if letter = CHR ''B'' then Itoa colorFgRed
      else if letter = CHR ''C'' then Itoa colorFgGreen
      else if letter = CHR ''D'' then Itoa colorFgBrown
      else if letter = CHR ''E'' then Itoa colorFgBlue
      else if letter = CHR ''F'' then Itoa colorFgMagenta
      else if letter = CHR ''G'' then Itoa colorFgCyan
      else if letter = CHR ''H'' then Itoa colorFgWhite
      else [])"

definition getColorFromBsdCode :: "string \<Rightarrow> panic + string" where
  "getColorFromBsdCode code =
     bindP (index code 0) (\<lambda>colorForeground.
     bindP (index code 1) (\<lambda>colorBackground.
       Inr ([ESC, CHR ''[''] @ getPartialColor True colorForeground
            @ getPartialColor False colorBackground @ ''m'')))"

text \<open>
  \<^verbatim>\<open>parseLscolors\<close>: the loop \<^verbatim>\<open>for i := 0; i < len(LSCOLORS); i += 2\<close>. Each of the
  eleven branches \<^verbatim>\<open>i == 0\<close>, \<dots>, \<^verbatim>\<open>i == 20\<close> is
  \<^verbatim>\<open>colorMap[key] = getColorFromBsdCode(LSCOLORS[i : i+2])\<close> with its own key, which
  \<open>bsdKey\<close> gives; at any other \<open>i\<close> the body does nothing. The slice is taken before
  the call and the store.
\<close>

definition bsdKey :: "nat \<Rightarrow> string option" where
  "bsdKey i =
     (if i = 0 then Some ''directory''
      else if i = 2 then Some ''symlink''
      else if i = 4 then Some ''socket''
      else if i = 6 then Some ''pipe''
      else if i = 8 then Some ''executable''
      else if i = 10 then Some ''block''
      else if i = 12 then Some ''character''
      else if i = 14 then Some ''executable_suid''
      else if i = 16 then Some ''executable_sgid''
      else if i = 18 then Some ''directory_o+w_sticky''
      else if i = 20 then Some ''directory_o+w''
      else None)"

function parseLscolorsLoop :: "nat \<Rightarrow> string \<Rightarrow> colorMap \<Rightarrow> panic + colorMap" where
  "parseLscolorsLoop i LSCOLORS colorMap =
     (if i < length LSCOLORS then
        (case bsdKey i of
           Some key \<Rightarrow>
             bindP (slice LSCOLORS i (i + 2)) (\<lambda>code.
             bindP (getColorFromBsdCode code) (\<lambda>c.
               parseLscolorsLoop (i + 2) LSCOLORS (colorMap(key \<mapsto> c))))
         | None \<Rightarrow> parseLscolorsLoop (i + 2) LSCOLORS colorMap)
      else Inr colorMap)"
  by pat_completeness auto
termination
  by (relation "measure (\<lambda>(i, LSCOLORS, colorMap). length LSCOLORS - i)") auto

declare parseLscolorsLoop.simps [simp del]

definition parseLscolors :: "string \<Rightarrow> colorMap \<Rightarrow> panic + colorMap" where
  "parseLscolors LSCOLORS colorMap = parseLscolorsLoop 0 LSCOLORS colorMap"

text \<open>
  The body of the loop over \<^verbatim>\<open>strings.Split(LsColors, ":")\<close> in \<^verbatim>\<open>ls\<close>: an empty piece
  is skipped; otherwise the piece is split at \<^verbatim>\<open>=\<close>, \<^verbatim>\<open>iSplit[1]\<close> is read (a panic when
  the piece has no \<^verbatim>\<open>=\<close>), and the code is stored under the key the chain of
  comparisons selects.
\<close>

definition storeLsColor :: "string \<Rightarrow> string \<Rightarrow> colorMap \<Rightarrow> colorMap" where
  "storeLsColor key colorCode colorMap =
     (if key = ''rs'' then colorMap(''end'' \<mapsto> colorCode)
      else if key = ''di'' then colorMap(''directory'' \<mapsto> colorCode)
      else if key = ''ln'' then colorMap(''symlink'' \<mapsto> colorCode)
      else if key = ''mh'' then colorMap(''multi_hardlink'' \<mapsto> colorCode)
      else if key = ''pi'' then colorMap(''pipe'' \<mapsto> colorCode)
      else if key = ''so'' then colorMap(''socket'' \<mapsto> colorCode)
      else if key = ''bd'' then colorMap(''block'' \<mapsto> colorCode)
      else if key = ''cd'' then colorMap(''character'' \<mapsto> colorCode)
      else if key = ''or'' then colorMap(''link_orphan'' \<mapsto> colorCode)
      else if key = ''mi'' then colorMap(''link_orphan_target'' \<mapsto> colorCode)
      else if key = ''su'' then colorMap(''executable_suid'' \<mapsto> colorCode)
      else if key = ''sg'' then colorMap(''executable_sgid'' \<mapsto> colorCode)
      else if key = ''tw'' then colorMap(''directory_o+w_sticky'' \<mapsto> colorCode)
      else if key = ''ow'' then colorMap(''directory_o+w'' \<mapsto> colorCode)
      else if key = ''st'' then colorMap(''directory_sticky'' \<mapsto> colorCode)
      else if key = ''ex'' then colorMap(''executable'' \<mapsto> colorCode)
      else colorMap(key \<mapsto> colorCode))"

fun parseLsColors :: "string list \<Rightarrow> colorMap \<Rightarrow> panic + colorMap" where
  "parseLsColors [] colorMap = Inr colorMap"
| "parseLsColors (i # LsColorsSplit) colorMap =
     (if i = [] then parseLsColors LsColorsSplit colorMap
      else
        (let iSplit = Split i (CHR ''='')
         in if 1 < length iSplit then
              (let colorCode = [ESC, CHR ''[''] @ iSplit ! 1 @ ''m''
               in parseLsColors LsColorsSplit (storeLsColor (iSplit ! 0) colorCode colorMap))
            else Inl IndexOutOfRange))"

text \<open>
  The block \<^verbatim>\<open>if options.color { ... }\<close> of \<^verbatim>\<open>ls\<close> that fills the color table from
  the environment; the two arguments are the values of \<^verbatim>\<open>LS_COLORS\<close> and \<^verbatim>\<open>LSCOLORS\<close>
  (empty when unset).
\<close>

definition determineColors :: "string \<Rightarrow> string \<Rightarrow> panic + colorMap" where
  "determineColors LsColors LSCOLORS =
     (let colorMap = [''end'' \<mapsto> [ESC, CHR ''[''] @ ''0m'']
      in if LSCOLORS \<noteq> [] then parseLscolors LSCOLORS colorMap
         else if LsColors \<noteq> [] then parseLsColors (Split LsColors (CHR '':'')) colorMap
         else parseLscolors ''exfxcxdxbxegedabagacad'' colorMap)"

text \<open>
  The table of the specification for the second format: the recognized two-letter keys
  with their categories; any other key is its own category.
\<close>

definition sysvCategory :: "string \<Rightarrow> string" where
  "sysvCategory key =
     (case map_of
        [(''rs'', ''end''), (''di'', ''directory''), (''ln'', ''symlink''),
         (''mh'', ''multi_hardlink''), (''pi'', ''pipe''), (''so'', ''socket''),
         (''bd'', ''block''), (''cd'', ''character''), (''or'', ''link_orphan''),
         (''mi'', ''link_orphan_target''), (''su'', ''executable_suid''),
         (''sg'', ''executable_sgid''), (''tw'', ''directory_o+w_sticky''),
         (''ow'', ''directory_o+w''), (''st'', ''directory_sticky''),
         (''ex'', ''executable'')] key of
        Some category \<Rightarrow> category
      | None \<Rightarrow> key)"

text \<open>
  A color specification written from a list of key and code pairs,
  \<^verbatim>\<open>key=code:key=code:...\<close>, and the table that storing the pairs from left to right
  gives.
\<close>

fun lsColorsString :: "(string \<times> string) list \<Rightarrow> string" where
  "lsColorsString [] = []"
| "lsColorsString [(k, c)] = k @ ''='' @ c"
| "lsColorsString ((k, c) # kvs) = k @ ''='' @ c @ '':'' @ lsColorsString kvs"

fun storeAll :: "(string \<times> string) list \<Rightarrow> colorMap \<Rightarrow> colorMap" where
  "storeAll [] m = m"
| "storeAll ((k, c) # kvs) m = storeAll kvs (m(sysvCategory k \<mapsto> [ESC, CHR ''[''] @ c @ ''m''))"

text \<open>The entry of a key in the table that was built, if a table was built.\<close>

definition tableEntry :: "panic + colorMap \<Rightarrow> string \<Rightarrow> string option" where
  "tableEntry r key = (case r of Inl e \<Rightarrow> None | Inr colorMap \<Rightarrow> colorMap key)"

section \<open>createListing: the permission string\<close>

text \<open>
  The first block of \<^verbatim>\<open>createListing\<close>. Its inputs are the string
  \<^verbatim>\<open>fip.info.Mode().String()\<close> and whether the mode has the \<^verbatim>\<open>os.ModeSymlink\<close> bit; the
  reading of the link target in the symlink branch touches the file system and is left
  out. Go prints a mode as one letter for each type bit that is set, in the order
  \<^verbatim>\<open>dalTLDpSugct?\<close> (a single \<^verbatim>\<open>-\<close> when none is set), followed by the nine permission
  characters: \<^verbatim>\<open>D\<close> is \<^verbatim>\<open>os.ModeDevice\<close>, so a character device prints as
  \<^verbatim>\<open>Dcrw-rw-rw-\<close> and a block device as \<^verbatim>\<open>Drw-rw----\<close>.
\<close>

definition createListing_permissions :: "bool \<Rightarrow> string \<Rightarrow> panic + string" where
  "createListing_permissions isSymlink modeString =
     (let permissions = modeString
      in if isSymlink then Inr (Replace1 permissions ''L'' ''l'')
         else
           ifP (bindP (index permissions 0) (\<lambda>c. Inr (c = CHR ''D'')))
             (slice permissions 1 (length permissions))
          (ifP (bindP (slice permissions 0 2) (\<lambda>p. Inr (p = ''ug'')))
             (let permissions = Replace1 permissions ''ug'' ''-''
              in bindP (slice permissions 0 3) (\<lambda>a.
                 bindP (slice permissions 4 6) (\<lambda>b.
                 bindP (slice permissions 7 (length permissions)) (\<lambda>c.
                   Inr (a @ ''s'' @ b @ ''s'' @ c)))))
          (ifP (bindP (index permissions 0) (\<lambda>c. Inr (c = CHR ''u'')))
             (let permissions = Replace1 permissions ''u'' ''-''
              in bindP (slice permissions 0 3) (\<lambda>a.
                 bindP (slice permissions 4 (length permissions)) (\<lambda>b.
                   Inr (a @ ''s'' @ b))))
          (ifP (bindP (index permissions 0) (\<lambda>c. Inr (c = CHR ''g'')))
             (let permissions = Replace1 permissions ''g'' ''-''
              in bindP (slice permissions 0 6) (\<lambda>a.
                 bindP (slice permissions 7 (length permissions)) (\<lambda>b.
                   Inr (a @ ''s'' @ b))))
          (ifP (bindP (slice permissions 0 2) (\<lambda>p. Inr (p = ''dt'')))
             (let permissions = Replace1 permissions ''dt'' ''d''
              in bindP (slice permissions 0 (length permissions - 1)) (\<lambda>a.
                   Inr (a @ ''t'')))
             (Inr permissions))))))"

section \<open>createListing: the size field\<close>

text \<open>
  \<^verbatim>\<open>float64(fip.info.Size())\<close> rounds an \<^verbatim>\<open>int64\<close> to 53 significant bits, to nearest
  and to even on a tie; below \<open>2\<^sup>5\<^sup>3\<close> it changes nothing. From there on the code only
  divides and multiplies by 1024, which is exact in binary floating point for the values
  that occur (no underflow: the loop stops below 1), so the floating-point values are
  rational numbers and the arithmetic on them is exact.
\<close>

function bitLength :: "int \<Rightarrow> nat" where
  "bitLength a = (if a \<le> 0 then 0 else Suc (bitLength (a div 2)))"
  by pat_completeness auto
termination
  by (relation "measure nat") auto

declare bitLength.simps [simp del]

definition float64 :: "int \<Rightarrow> rat" where
  "float64 n =
     (let a = \<bar>n\<bar>;
          e = bitLength a - 53;
          q = a div 2 ^ e;
          r = a mod 2 ^ e;
          q' = (if 2 * r > 2 ^ e \<or> (2 * r = 2 ^ e \<and> odd q) then q + 1 else q)
      in of_int (sgn n * (q' * 2 ^ e)))"

text \<open>
  The loop \<^verbatim>\<open>for size >= 1.0 { size /= 1024; count++ }\<close>; the variables \<^verbatim>\<open>size\<close> and
  \<^verbatim>\<open>count\<close> are \<open>sz\<close> and \<open>cnt\<close> here.
\<close>

function sizeLoop :: "rat \<Rightarrow> int \<Rightarrow> rat \<times> int" where
  "sizeLoop sz cnt =
     (if sz \<ge> 1 then sizeLoop (sz / 1024) (cnt + 1) else (sz, cnt))"
  by pat_completeness auto
termination
proof (relation "measure (\<lambda>(sz, cnt). nat \<lfloor>sz * 1024\<rfloor>)")
  show "wf (measure (\<lambda>(sz, cnt). nat \<lfloor>sz * 1024\<rfloor>))" by simp
next
  fix sz :: rat and cnt :: int
  assume s: "1 \<le> sz"
  then have "sz + 1 \<le> sz * 1024" by simp
  then have "\<lfloor>sz + 1\<rfloor> \<le> \<lfloor>sz * 1024\<rfloor>" by (rule floor_mono)
  moreover from s have "0 \<le> \<lfloor>sz\<rfloor>" by simp
  ultimately have "nat \<lfloor>sz / 1024 * 1024\<rfloor> < nat \<lfloor>sz * 1024\<rfloor>" using s by simp
  then show "((sz / 1024, cnt + 1), (sz, cnt)) \<in> measure (\<lambda>(sz, cnt). nat \<lfloor>sz * 1024\<rfloor>)"
    by simp
qed

declare sizeLoop.simps [simp del]

text \<open>
  The verb \<^verbatim>\<open>%.1f\<close> prints the exact value rounded to one decimal place, to nearest and
  to even on a tie; \<^verbatim>\<open>int64(size)\<close> cuts the fraction off.
\<close>

definition roundHalfEven :: "rat \<Rightarrow> int" where
  "roundHalfEven x =
     (let f = \<lfloor>x\<rfloor>; d = x - of_int f
      in if d < 1 / 2 then f
         else if d > 1 / 2 then f + 1
         else if even f then f else f + 1)"

definition formatF1 :: "rat \<Rightarrow> string" where
  "formatF1 x =
     (let tenths = roundHalfEven (\<bar>x\<bar> * 10)
      in (if x < 0 then ''-'' else []) @ showDec (tenths div 10) @ ''.''
           @ [digitChar (tenths mod 10)])"

definition truncateInt64 :: "rat \<Rightarrow> int" where
  "truncateInt64 x = (if x \<ge> 0 then \<lfloor>x\<rfloor> else \<lceil>x\<rceil>)"

text \<open>
  The branch \<^verbatim>\<open>if options.human\<close>: the size string and its suffix before the trailing
  \<^verbatim>\<open>.0\<close> is dropped, and the dropping. The slices of the last step are inside the
  string because of \<^verbatim>\<open>len(sizeStr) > 3\<close>.
\<close>

definition sizeSuffix :: "int \<Rightarrow> string" where
  "sizeSuffix cnt =
     (if cnt = 0 then ''B''
      else if cnt = 1 then ''K''
      else if cnt = 2 then ''M''
      else if cnt = 3 then ''G''
      else if cnt = 4 then ''T''
      else if cnt = 5 then ''P''
      else if cnt = 6 then ''E''
      else ''?'')"

definition humanSizeStr :: "int \<Rightarrow> string \<times> string" where
  "humanSizeStr bytes =
     (let (sz, cnt) = sizeLoop (float64 bytes) 0;
          (sz, cnt) = (if cnt < 0 then (sz, 0)
                           else if cnt > 0 then (sz * 1024, cnt - 1)
                           else (sz, cnt));
          suffix = sizeSuffix cnt;
          sizeStr = (if cnt = 0 then Itoa (truncateInt64 sz) @ suffix
                     else formatF1 sz @ suffix)
      in (sizeStr, suffix))"

definition dropDotZero :: "string \<Rightarrow> string \<Rightarrow> string" where
  "dropDotZero sizeStr suffix =
     (if length sizeStr > 3
         \<and> take 2 (drop (length sizeStr - 3) sizeStr) = ''.0''
      then take (length sizeStr - 3) sizeStr @ suffix
      else sizeStr)"

definition createListing_size :: "Options \<Rightarrow> int \<Rightarrow> string" where
  "createListing_size options bytes =
     (if human options then
        (let (sizeStr, suffix) = humanSizeStr bytes in dropDotZero sizeStr suffix)
      else Itoa bytes)"

section \<open>writeListingName\<close>

text \<open>
  \<^verbatim>\<open>writeListingName\<close> appends to the output buffer; the model returns what is appended.
  \<open>chooseColor\<close> is the chain of \<^verbatim>\<open>if\<close>/\<^verbatim>\<open>else if\<close> under \<^verbatim>\<open>options.color\<close>: the string
  written before the name and the flag \<^verbatim>\<open>appliedColor\<close>. Every read
  \<^verbatim>\<open>l.permissions[i]\<close> may panic, and \<^verbatim>\<open>&&\<close> reads its right operand only when the left
  one holds.
\<close>

definition extensionStr :: "string \<Rightarrow> string" where
  "extensionStr n =
     (let nameSplit = Split n (CHR ''.'')
      in if length nameSplit > 1 then ''*.'' @ nameSplit ! (length nameSplit - 1) else [])"

definition permIs :: "Listing \<Rightarrow> nat \<Rightarrow> char \<Rightarrow> panic + bool" where
  "permIs l i c = bindP (index (permissions l) i) (\<lambda>x. Inr (x = c))"

definition chooseColor :: "colorMap \<Rightarrow> Listing \<Rightarrow> panic + (string \<times> bool)" where
  "chooseColor colorMap l =
     (let numHardlinks = Atoi (numHardLinks l);
          extensionStr = extensionStr (name l)
      in if extensionStr \<noteq> [] \<and> lookup colorMap extensionStr \<noteq> [] then
           Inr (lookup colorMap extensionStr, True)
         else
           ifP (andP (permIs l 0 (CHR ''d''))
                  (andP (permIs l 8 (CHR ''w'')) (permIs l 9 (CHR ''t''))))
             (Inr (lookup colorMap ''directory_o+w_sticky'', True))
          (ifP (andP (permIs l 0 (CHR ''d'')) (permIs l 9 (CHR ''t'')))
             (Inr (lookup colorMap ''directory_sticky'', True))
          (ifP (andP (permIs l 0 (CHR ''d'')) (permIs l 8 (CHR ''w'')))
             (Inr (lookup colorMap ''directory_o+w'', True))
          (ifP (permIs l 0 (CHR ''d''))
             (Inr (lookup colorMap ''directory'', True))
          (if numHardlinks > 1 then
             Inr (lookup colorMap ''multi_hardlink'', True)
           else
          (ifP (andP (permIs l 0 (CHR ''l'')) (Inr (linkOrphan l)))
             (Inr (lookup colorMap ''link_orphan'', True))
          (ifP (permIs l 0 (CHR ''l''))
             (Inr (lookup colorMap ''symlink'', True))
          (ifP (permIs l 3 (CHR ''s''))
             (Inr (lookup colorMap ''executable_suid'', True))
          (ifP (permIs l 6 (CHR ''s''))
             (Inr (lookup colorMap ''executable_sgid'', True))
          (if CHR ''x'' \<in> set (permissions l) then
             Inr (lookup colorMap ''executable'', True)
           else if isSocket l then Inr (lookup colorMap ''socket'', True)
           else if isPipe l then Inr (lookup colorMap ''pipe'', True)
           else if isBlock l then Inr (lookup colorMap ''block'', True)
           else if isCharacter l then Inr (lookup colorMap ''character'', True)
           else Inr ([], False)))))))))))"

definition writeListingName :: "Options \<Rightarrow> colorMap \<Rightarrow> Listing \<Rightarrow> panic + string" where
  "writeListingName options colorMap l =
     bindP
       (if color options then
          bindP (chooseColor colorMap l) (\<lambda>(written, appliedColor).
            Inr (written @ name l @ (if appliedColor then lookup colorMap ''end'' else [])))
        else Inr (name l))
       (\<lambda>out.
          ifP (andP (permIs l 0 (CHR ''l'')) (Inr (long options)))
            (if linkOrphan l then
               Inr (out @ '' -> '' @ lookup colorMap ''link_orphan_target'' @ linkName l
                      @ lookup colorMap ''end'')
             else Inr (out @ '' -> '' @ linkName l))
            (Inr out))"

text \<open>
  The precedence of the specification: the category key of the first rule that matches,
  in the order extension glob, world-writable sticky directory, sticky directory,
  world-writable directory, directory, more than one hard link, orphan link, link,
  setuid, setgid, any execute bit, socket, pipe, block device, character device; no key
  when no rule matches. The extension glob is \<^verbatim>\<open>*.\<close> followed by what comes after the
  last \<^verbatim>\<open>.\<close> of the name, and it matches when the table has a non-empty entry for it.
\<close>

definition extensionGlob :: "string \<Rightarrow> string option" where
  "extensionGlob n =
     (if CHR ''.'' \<in> set n then Some (''*.'' @ rev (takeWhile (\<lambda>c. c \<noteq> CHR ''.'') (rev n)))
      else None)"

definition classify :: "colorMap \<Rightarrow> Listing \<Rightarrow> string option" where
  "classify colorMap l =
     (let p = permissions l;
          directory = (p ! 0 = CHR ''d'');
          worldWritable = (p ! 8 = CHR ''w'');
          sticky = (p ! 9 = CHR ''t'')
      in case (case extensionGlob (name l) of
                 Some glob \<Rightarrow> if lookup colorMap glob \<noteq> [] then Some glob else None
               | None \<Rightarrow> None) of
           Some glob \<Rightarrow> Some glob
         | None \<Rightarrow>
             if directory \<and> worldWritable \<and> sticky then Some ''directory_o+w_sticky''
             else if directory \<and> sticky then Some ''directory_sticky''
             else if directory \<and> worldWritable then Some ''directory_o+w''
             else if directory then Some ''directory''
             else if Atoi (numHardLinks l) > 1 then Some ''multi_hardlink''
             else if p ! 0 = CHR ''l'' \<and> linkOrphan l then Some ''link_orphan''
             else if p ! 0 = CHR ''l'' then Some ''symlink''
             else if p ! 3 = CHR ''s'' then Some ''executable_suid''
             else if p ! 6 = CHR ''s'' then Some ''executable_sgid''
             else if CHR ''x'' \<in> set p then Some ''executable''
             else if isSocket l then Some ''socket''
             else if isPipe l then Some ''pipe''
             else if isBlock l then Some ''block''
             else if isCharacter l then Some ''character''
             else None)"

text \<open>What long mode appends to the name of a symbolic link.\<close>

definition linkSuffix :: "Options \<Rightarrow> colorMap \<Rightarrow> Listing \<Rightarrow> string" where
  "linkSuffix options colorMap l =
     (if permissions l ! 0 = CHR ''l'' \<and> long options then
        (if linkOrphan l then
           '' -> '' @ lookup colorMap ''link_orphan_target'' @ linkName l @ lookup colorMap ''end''
         else '' -> '' @ linkName l)
      else [])"

section \<open>writeListingsToBuffer: the rows of the grid\<close>

text \<open>
  The inner loop \<^verbatim>\<open>for i := 0; i < len(listings); i++\<close> of grid mode, from index \<open>i\<close>
  on: the entry at position \<open>i\<close> goes to column \<^verbatim>\<open>i / numRows\<close>, whose width and count
  are updated. Reading or writing \<^verbatim>\<open>colWidths[col]\<close> or \<^verbatim>\<open>colListings[col]\<close> outside
  the slices is a panic.
\<close>

function columnLoop ::
  "nat \<Rightarrow> nat \<Rightarrow> Listing list \<Rightarrow> nat list \<times> nat list \<Rightarrow> panic + (nat list \<times> nat list)" where
  "columnLoop i numRows listings (colWidths, colListings) =
     (if i < length listings then
        (let col = i div numRows
         in if col < length colWidths \<and> col < length colListings then
              (let colWidths' =
                     (if colWidths ! col < length (name (listings ! i))
                      then colWidths[col := length (name (listings ! i))]
                      else colWidths);
                   colListings' = colListings[col := colListings ! col + 1]
               in columnLoop (i + 1) numRows listings (colWidths', colListings'))
            else Inl IndexOutOfRange)
      else Inr (colWidths, colListings))"
  by pat_completeness auto
termination
  by (relation "measure (\<lambda>(i, numRows, listings, cols). length listings - i)") auto

declare columnLoop.simps [simp del]

text \<open>
  The outer \<^verbatim>\<open>for\<close> loop that looks for the number of rows, from candidate \<open>numRows\<close>
  on; the result is the accepted \<^verbatim>\<open>numRows\<close> with its \<^verbatim>\<open>colWidths\<close>. The candidate
  starts at 1 and only grows, so \<^verbatim>\<open>i / numRows\<close> never divides by zero.
  \<^verbatim>\<open>math.Ceil(float64(len(listings)) / float64(numRows))\<close> is the ceiling of the exact
  quotient: below \<open>2\<^sup>5\<^sup>3\<close> entries the rounding of the floating-point division cannot
  reach the next integer. The loop that adds up \<^verbatim>\<open>colWidths[i]\<close> for \<^verbatim>\<open>i < numCols\<close> runs
  over the whole slice, which has \<^verbatim>\<open>numCols\<close> elements. The differences of counts are
  Go \<^verbatim>\<open>int\<close>s and may be negative.
\<close>

function gridRows :: "Listing list \<Rightarrow> int \<Rightarrow> nat \<Rightarrow> panic + (nat \<times> nat list)" where
  "gridRows listings terminalWidth numRows =
     (let numCols = nat \<lceil>rat_of_nat (length listings) / rat_of_nat numRows\<rceil>
      in case columnLoop 0 numRows listings (replicate numCols 0, replicate numCols 0) of
           Inl e \<Rightarrow> Inl e
         | Inr (colWidths, colListings) \<Rightarrow>
             (let maxRowLength = int (sum_list colWidths) + 2 * (int numCols - 1)
              in if maxRowLength > terminalWidth \<and> numRows \<ge> length listings then
                   Inr (numRows, colWidths)
                 else if maxRowLength > terminalWidth then
                   gridRows listings terminalWidth (numRows + 1)
                 else if colListings = [] then Inl IndexOutOfRange
                 else
                   (let listingsInFirstCol = colListings ! 0;
                        listingsInLastCol = colListings ! (length colListings - 1)
                    in if listingsInLastCol \<le> listingsInFirstCol div 2
                          \<and> int listingsInFirstCol - int listingsInLastCol \<ge> 5 then
                         gridRows listings terminalWidth (numRows + 1)
                       else Inr (numRows, colWidths))))"
  by pat_completeness auto
termination
proof (relation "measure (\<lambda>(listings, terminalWidth, numRows). length listings - numRows)")
  show "wf (measure (\<lambda>(listings, terminalWidth, numRows). length listings - numRows))"
    by simp
next
  fix listings :: "Listing list" and terminalWidth :: int and numRows :: nat
    and numCols x2 colWidths colListings maxRowLength
  assume "\<not> (terminalWidth < maxRowLength \<and> length listings \<le> numRows)"
    and "terminalWidth < maxRowLength"
  then show "((listings, terminalWidth, numRows + 1), listings, terminalWidth, numRows)
      \<in> measure (\<lambda>(listings, terminalWidth, numRows). length listings - numRows)"
    by simp
next
  fix listings :: "Listing list" and terminalWidth :: int and numRows :: nat
    and numCols :: nat and x2 :: "nat list \<times> nat list" and colWidths colListings :: "nat list"
    and maxRowLength :: int and listingsInFirstCol listingsInLastCol :: nat
  assume nc: "numCols = nat \<lceil>rat_of_nat (length listings) / rat_of_nat numRows\<rceil>"
    and run: "columnLoop 0 numRows listings (replicate numCols 0, replicate numCols 0) = Inr x2"
    and x2: "(colWidths, colListings) = x2"
    and ne: "colListings \<noteq> []"
    and first: "listingsInFirstCol = colListings ! 0"
    and last: "listingsInLastCol = colListings ! (length colListings - 1)"
    and short: "listingsInLastCol \<le> listingsInFirstCol div 2
        \<and> 5 \<le> int listingsInFirstCol - int listingsInLastCol"
  have keep: "columnLoop i r ls (cw, cl) = Inr (cw', cl') \<Longrightarrow> length cl' = length cl"
    for i r ls cw cl cw' cl'
  proof (induction i r ls "(cw, cl)" arbitrary: cw cl rule: columnLoop.induct)
    case (1 i r ls cw cl)
    show ?case
    proof (cases "i < length ls")
      case False
      with "1.prems" show ?thesis by (subst (asm) columnLoop.simps) simp
    next
      case True
      show ?thesis
      proof (cases "i div r < length cw \<and> i div r < length cl")
        case False
        with True "1.prems" show ?thesis by (subst (asm) columnLoop.simps) (simp add: Let_def)
      next
        case inr: True
        let ?cw = "if cw ! (i div r) < length (name (ls ! i))
                   then cw[i div r := length (name (ls ! i))] else cw"
        let ?cl = "cl[i div r := cl ! (i div r) + 1]"
        from True inr "1.prems" have "columnLoop (i + 1) r ls (?cw, ?cl) = Inr (cw', cl')"
          by (subst (asm) columnLoop.simps) (simp add: Let_def)
        from "1.hyps"[OF True refl inr refl refl this] show ?thesis by simp
      qed
    qed
  qed
  from run x2 have "columnLoop 0 numRows listings (replicate numCols 0, replicate numCols 0)
      = Inr (colWidths, colListings)" by simp
  from keep[OF this] have len: "length colListings = numCols" by simp
  have "numRows < length listings"
  proof (rule ccontr)
    assume "\<not> numRows < length listings"
    then have le: "length listings \<le> numRows" by simp
    have "rat_of_nat (length listings) / rat_of_nat numRows \<le> 1"
    proof (cases "numRows = 0")
      case True
      then show ?thesis by simp
    next
      case False
      with le show ?thesis by (simp add: divide_le_eq)
    qed
    then have "\<lceil>rat_of_nat (length listings) / rat_of_nat numRows\<rceil> \<le> 1"
      by (simp add: ceiling_le_iff)
    then have "nat \<lceil>rat_of_nat (length listings) / rat_of_nat numRows\<rceil> \<le> 1"
      by linarith
    with nc have "numCols \<le> 1" by simp
    with len ne have "length colListings = 1" by (cases colListings) auto
    with first last have "listingsInFirstCol = listingsInLastCol" by simp
    with short show False by simp
  qed
  then show "((listings, terminalWidth, numRows + 1), listings, terminalWidth, numRows)
      \<in> measure (\<lambda>(listings, terminalWidth, numRows). length listings - numRows)"
    by simp
qed

declare gridRows.simps [simp del]

text \<open>Grid mode starts the search with \<^verbatim>\<open>numRows := 1\<close>.\<close>

definition gridLayout :: "Listing list \<Rightarrow> int \<Rightarrow> panic + (nat \<times> nat list)" where
  "gridLayout listings terminalWidth = gridRows listings terminalWidth 1"

text \<open>
  The layout as the specification words it, for a candidate row count \<open>R\<close>: there are
  \<open>\<lceil>n / R\<rceil>\<close> columns, the entry at position \<open>p\<close> is in column \<open>p div R\<close>, the width of
  a column is the largest length of a name in it, and a row is as wide as the columns
  together with two separator characters between neighbours.
\<close>

definition specNumCols :: "Listing list \<Rightarrow> nat \<Rightarrow> nat" where
  "specNumCols ls R = nat \<lceil>rat_of_nat (length ls) / rat_of_nat R\<rceil>"

definition specColumn :: "Listing list \<Rightarrow> nat \<Rightarrow> nat \<Rightarrow> nat set" where
  "specColumn ls R c = {p \<in> {0..<length ls}. p div R = c}"

definition specColWidth :: "Listing list \<Rightarrow> nat \<Rightarrow> nat \<Rightarrow> nat" where
  "specColWidth ls R c = Max (insert 0 ((\<lambda>p. length (name (ls ! p))) ` specColumn ls R c))"

definition specColCount :: "Listing list \<Rightarrow> nat \<Rightarrow> nat \<Rightarrow> nat" where
  "specColCount ls R c = card (specColumn ls R c)"

definition specColWidths :: "Listing list \<Rightarrow> nat \<Rightarrow> nat list" where
  "specColWidths ls R = map (specColWidth ls R) [0..<specNumCols ls R]"

definition specRowWidth :: "Listing list \<Rightarrow> nat \<Rightarrow> int" where
  "specRowWidth ls R = int (sum_list (specColWidths ls R)) + 2 * (int (specNumCols ls R) - 1)"

text \<open>
  The last column is short when its count is at most half the count of the first column
  and the first column has at least five entries more.
\<close>

definition specShortLastColumn :: "Listing list \<Rightarrow> nat \<Rightarrow> bool" where
  "specShortLastColumn ls R =
     (let firstCount = specColCount ls R 0;
          lastCount = specColCount ls R (specNumCols ls R - 1)
      in 2 * lastCount \<le> firstCount \<and> lastCount + 5 \<le> firstCount)"

text \<open>The part of a column that lies before position \<open>i\<close>.\<close>

definition columnUpTo :: "nat \<Rightarrow> nat \<Rightarrow> nat \<Rightarrow> nat set" where
  "columnUpTo i R c = {p \<in> {0..<i}. p div R = c}"

section \<open>Reversal is list reversal\<close>

text \<open>
  From loop index \<open>i\<close> on, the loop mirrors exactly the positions \<open>i \<dots> n - 1 - i\<close>
  that are still untouched, and it never leaves the slice.
\<close>

lemma reverseLoop_spec:
  assumes "middleIndex = (if int (length xs) mod 2 = 0 then int (length xs) div 2 - 1
                          else int (length xs) div 2)"
    and "int i \<le> middleIndex + 1"
  shows "\<exists>ys. reverseLoop i middleIndex xs = Some ys \<and> length ys = length xs \<and>
           (\<forall>j<length xs. ys ! j =
              (if i \<le> j \<and> j + i < length xs then xs ! (length xs - 1 - j) else xs ! j))"
  using assms
proof (induction i middleIndex xs rule: reverseLoop.induct)
  case (1 i middleIndex listings)
  let ?n = "length listings"
  show ?case
  proof (cases "int i \<le> middleIndex")
    case False
    with "1.prems" have mid: "middleIndex + 1 = int i" by simp
    have none: "\<And>j. j < ?n \<Longrightarrow> i \<le> j \<Longrightarrow> j + i < ?n \<Longrightarrow> ?n - 1 - j = j"
    proof -
      fix j assume j: "j < ?n" "i \<le> j" "j + i < ?n"
      from mid "1.prems"(1) j show "?n - 1 - j = j"
        by (auto split: if_splits)
    qed
    from False have "reverseLoop i middleIndex listings = Some listings"
      by (subst reverseLoop.simps) simp
    moreover have "\<forall>j<?n. listings ! j =
        (if i \<le> j \<and> j + i < ?n then listings ! (?n - 1 - j) else listings ! j)"
      using none by auto
    ultimately show ?thesis by blast
  next
    case True
    note le = True
    show ?thesis
    proof (cases "int i = int ?n - 1 - int i")
      case True
      then have n: "?n = 2 * i + 1" by presburger
      from le True have "reverseLoop i middleIndex listings = Some listings"
        by (subst reverseLoop.simps) simp
      moreover have "\<forall>j<?n. listings ! j =
          (if i \<le> j \<and> j + i < ?n then listings ! (?n - 1 - j) else listings ! j)"
      proof (intro allI impI)
        fix j assume "j < ?n"
        show "listings ! j = (if i \<le> j \<and> j + i < ?n then listings ! (?n - 1 - j) else listings ! j)"
        proof (cases "i \<le> j \<and> j + i < ?n")
          case True
          with n have "j = i" by presburger
          with n have "?n - 1 - j = j" by presburger
          with True show ?thesis by simp
        next
          case False
          then show ?thesis by auto
        qed
      qed
      ultimately show ?thesis by blast
    next
      case False
      note ne = False
      from le "1.prems"(1) have bounds: "2 * i + 1 < ?n"
        using ne by (auto split: if_splits) presburger+
      let ?r = "?n - 1 - i"
      have r: "nat (int ?n - 1 - int i) = ?r" by simp
      have rlt: "?r < ?n" and ilt: "i < ?n" and ir: "i < ?r" using bounds by auto
      let ?l2 = "(listings[i := listings ! ?r])[?r := listings ! i]"
      have step: "reverseLoop i middleIndex listings = reverseLoop (i + 1) middleIndex ?l2"
        using le ne bounds r by (subst reverseLoop.simps) (simp add: Let_def)
      have len2: "length ?l2 = ?n" by simp
      have bnds: "0 \<le> int ?n - 1 - int i \<and> int ?n - 1 - int i < int ?n \<and> int i < int ?n"
        using bounds by auto
      have "\<exists>ys. reverseLoop (i + 1) middleIndex ?l2 = Some ys \<and> length ys = length ?l2 \<and>
           (\<forall>j<length ?l2. ys ! j =
              (if i + 1 \<le> j \<and> j + (i + 1) < length ?l2 then ?l2 ! (length ?l2 - 1 - j) else ?l2 ! j))"
      proof -
        have mid2: "middleIndex = (if int (length ?l2) mod 2 = 0 then int (length ?l2) div 2 - 1
                          else int (length ?l2) div 2)"
          using "1.prems"(1) by simp
        have le2: "int (i + 1) \<le> middleIndex + 1" using le by simp
        have l2eq: "(listings[nat (int i) := listings ! nat (int ?n - 1 - int i)])
                      [nat (int ?n - 1 - int i) := listings ! nat (int i)] = ?l2"
          by (simp add: r)
        show ?thesis
          by (rule "1.IH"[OF le refl refl ne bnds refl refl refl, unfolded l2eq, OF mid2 le2])
      qed
      then obtain ys where ys: "reverseLoop (i + 1) middleIndex ?l2 = Some ys"
        "length ys = ?n"
        "\<forall>j<?n. ys ! j =
              (if i + 1 \<le> j \<and> j + (i + 1) < ?n then ?l2 ! (?n - 1 - j) else ?l2 ! j)"
        by (auto simp: len2)
      have "\<forall>j<?n. ys ! j =
              (if i \<le> j \<and> j + i < ?n then listings ! (?n - 1 - j) else listings ! j)"
      proof (intro allI impI)
        fix j assume j: "j < ?n"
        consider (front) "j = i" | (rear) "j = ?r" | (inner) "i + 1 \<le> j" "j + (i + 1) < ?n"
          | (outer) "j < i \<or> ?n \<le> j + i"
          using j by linarith
        then show "ys ! j = (if i \<le> j \<and> j + i < ?n then listings ! (?n - 1 - j) else listings ! j)"
        proof cases
          case front
          have "ys ! j = ?l2 ! i" using ys(3) j front by simp
          also have "\<dots> = listings ! ?r" using ir ilt by (simp add: nth_list_update)
          finally show ?thesis using front bounds by simp
        next
          case rear
          have "ys ! j = ?l2 ! ?r" using ys(3) j rear bounds by auto
          also have "\<dots> = listings ! i" using rlt by simp
          also have "i = ?n - 1 - ?r" using bounds by linarith
          finally show ?thesis using rear bounds by auto
        next
          case inner
          then have *: "?n - 1 - j \<noteq> i" "?n - 1 - j \<noteq> ?r" "?n - 1 - j < ?n"
            using j by linarith+
          have "ys ! j = ?l2 ! (?n - 1 - j)" using ys(3) j inner by simp
          also have "\<dots> = listings ! (?n - 1 - j)" using * by (simp add: nth_list_update)
          finally show ?thesis using inner by auto
        next
          case outer
          then have *: "j \<noteq> i" "j \<noteq> ?r" using j ir by linarith+
          have "ys ! j = ?l2 ! j" using ys(3) j outer by auto
          also have "\<dots> = listings ! j" using * by (simp add: nth_list_update)
          finally show ?thesis using outer by auto
        qed
      qed
      with step ys(1,2) show ?thesis by simp
    qed
  qed
qed

lemma reverseListings_rev: "reverseListings xs = Some (rev xs)"
proof -
  let ?m = "if int (length xs) mod 2 = 0 then int (length xs) div 2 - 1 else int (length xs) div 2"
  have "int 0 \<le> ?m + 1" by (auto split: if_splits)
  from reverseLoop_spec[OF refl this]
  obtain ys where ys: "reverseLoop 0 ?m xs = Some ys" "length ys = length xs"
    "\<forall>j<length xs. ys ! j = xs ! (length xs - 1 - j)"
    by auto
  have "ys = rev xs"
    by (rule nth_equalityI) (use ys in \<open>simp_all add: rev_nth\<close>)
  moreover have "reverseListings xs = reverseLoop 0 ?m xs"
    by (simp add: reverseListings_def Let_def)
  ultimately show ?thesis using ys(1) by simp
qed

text \<open>
  Claim C7. For a slice of any length \<open>n\<close>, odd or even, the reversal step of
  \<^verbatim>\<open>sortListings\<close> returns without leaving the slice, moves the element at index
  \<open>i\<close> to index \<open>n - 1 - i\<close> for every \<open>i < n\<close> (the middle element of an odd-length
  slice stays at its own mirror position), and applied twice restores the original
  order.
\<close>

theorem reverseListings_mirrors:
  "\<exists>ys. reverseListings xs = Some ys \<and> length ys = length xs \<and>
        (\<forall>i<length xs. ys ! (length xs - 1 - i) = xs ! i) \<and>
        reverseListings ys = Some xs"
proof -
  have "\<forall>i<length xs. rev xs ! (length xs - 1 - i) = xs ! i"
    by (simp add: rev_nth)
  moreover have "reverseListings (rev xs) = Some xs"
    using reverseListings_rev[of "rev xs"] by simp
  ultimately show ?thesis using reverseListings_rev[of xs] by simp
qed

theorem reverseListings_mirrors_witness:
  "reverseListings ''abc'' = Some ''cba'' \<and> reverseListings ''cba'' = Some ''abc'' \<and>
   reverseListings ''abcd'' = Some ''dcba''"
proof -
  have fwd: "reverseListings ''abc'' = Some ''cba''"
    by (simp add: reverseListings_def Let_def reverseLoop.simps)
  from reverseListings_mirrors[of "''abc''"]
  have "\<exists>ys. reverseListings ''abc'' = Some ys \<and> reverseListings ys = Some ''abc''"
    by blast
  with fwd have "reverseListings ''cba'' = Some ''abc''" by simp
  moreover have "reverseListings ''abcd'' = Some ''dcba''"
    by (simp add: reverseListings_def Let_def reverseLoop.simps)
  ultimately show ?thesis using fwd by simp
qed

section \<open>Properties of the exchange sort\<close>

lemma bubblePass_length: "bubblePass cmp i xs d = (ys, d') \<Longrightarrow> length ys = length xs"
proof (induction cmp i xs d rule: bubblePass.induct)
  case (1 cmp i xs d)
  then show ?case
    by (subst (asm) (3) bubblePass.simps) (auto simp: Let_def split: if_splits)
qed

lemma bubblePass_mset: "bubblePass cmp i xs d = (ys, d') \<Longrightarrow> mset ys = mset xs"
proof (induction cmp i xs d rule: bubblePass.induct)
  case (1 cmp i xs d)
  show ?case
  proof (cases "int i < int (length xs) - 1")
    case False
    with "1.prems" show ?thesis by (subst (asm) bubblePass.simps) simp
  next
    case True
    then have i: "i < length xs" "i + 1 < length xs" by auto
    show ?thesis
    proof (cases "cmp (xs ! i) (xs ! (i + 1)) > - 1")
      case sw: True
      from "1.prems" True sw have "bubblePass cmp (i + 1) (xs[i := xs ! (i + 1), i + 1 := xs ! i]) False = (ys, d')"
        by (subst (asm) bubblePass.simps) (simp add: Let_def)
      from "1.IH"(1)[OF True refl refl sw this]
      have "mset ys = mset (xs[i := xs ! (i + 1), i + 1 := xs ! i])" .
      also have "\<dots> = mset xs" using i by (simp add: mset_swap)
      finally show ?thesis .
    next
      case nsw: False
      from "1.prems" True nsw have "bubblePass cmp (i + 1) xs d = (ys, d')"
        by (subst (asm) bubblePass.simps) (simp add: Let_def)
      from "1.IH"(2)[OF True refl refl nsw this] show ?thesis .
    qed
  qed
qed

lemma bubblePass_done:
  "bubblePass cmp i xs d = (ys, True) \<Longrightarrow>
     d \<and> ys = xs \<and> (\<forall>k. i \<le> k \<and> k + 1 < length xs \<longrightarrow> \<not> cmp (xs ! k) (xs ! (k + 1)) > - 1)"
proof (induction cmp i xs d rule: bubblePass.induct)
  case (1 cmp i xs d)
  show ?case
  proof (cases "int i < int (length xs) - 1")
    case False
    with "1.prems" show ?thesis by (subst (asm) bubblePass.simps) auto
  next
    case True
    show ?thesis
    proof (cases "cmp (xs ! i) (xs ! (i + 1)) > - 1")
      case sw: True
      from "1.prems" True sw have "bubblePass cmp (i + 1) (xs[i := xs ! (i + 1), i + 1 := xs ! i]) False = (ys, True)"
        by (subst (asm) bubblePass.simps) (simp add: Let_def)
      from "1.IH"(1)[OF True refl refl sw this] show ?thesis by simp
    next
      case nsw: False
      from "1.prems" True nsw have "bubblePass cmp (i + 1) xs d = (ys, True)"
        by (subst (asm) bubblePass.simps) (simp add: Let_def)
      from "1.IH"(2)[OF True refl refl nsw this]
      have *: "d" "ys = xs" "\<forall>k. i + 1 \<le> k \<and> k + 1 < length xs \<longrightarrow> \<not> cmp (xs ! k) (xs ! (k + 1)) > - 1"
        by auto
      have "\<not> cmp (xs ! k) (xs ! (k + 1)) > - 1" if "i \<le> k \<and> k + 1 < length xs" for k
      proof (cases "k = i")
        case True with nsw show ?thesis by simp
      next
        case False with that * show ?thesis by auto
      qed
      with * show ?thesis by blast
    qed
  qed
qed

lemma filter_length_swap:
  assumes "i < length ks" "j < length ks"
  shows "length (filter P (ks[i := ks ! j, j := ks ! i])) = length (filter P ks)"
proof -
  have len: "length (filter P l) = size (filter_mset P (mset l))" for l :: "'a list"
    by (metis mset_filter size_mset)
  from assms have "mset (ks[i := ks ! j, j := ks ! i]) = mset ks" by (simp add: mset_swap)
  then show ?thesis by (simp add: len)
qed

lemma inversions_swap:
  "i + 1 < length ks \<Longrightarrow> R (ks ! i) (ks ! (i + 1)) \<Longrightarrow> \<not> R (ks ! (i + 1)) (ks ! i) \<Longrightarrow>
     inversions R (ks[i := ks ! (i + 1), i + 1 := ks ! i]) < inversions R ks"
proof (induction ks arbitrary: i)
  case Nil
  then show ?case by simp
next
  case (Cons x ks)
  show ?case
  proof (cases i)
    case 0
    with Cons.prems obtain b rest where ks: "ks = b # rest" by (cases ks) auto
    with 0 Cons.prems have "R x b" "\<not> R b x" by simp_all
    with ks 0 show ?thesis by simp
  next
    case (Suc i')
    with Cons.prems have p: "i' + 1 < length ks" "R (ks ! i') (ks ! (i' + 1))"
      "\<not> R (ks ! (i' + 1)) (ks ! i')" by auto
    from Cons.IH[OF p] have "inversions R (ks[i' := ks ! (i' + 1), i' + 1 := ks ! i']) < inversions R ks" .
    moreover have "length (filter (R x) (ks[i' := ks ! (i' + 1), i' + 1 := ks ! i']))
        = length (filter (R x) ks)"
      using p by (intro filter_length_swap) auto
    ultimately show ?thesis using Suc by simp
  qed
qed

lemma swapsDecrease_mset: "mset ys = mset xs \<Longrightarrow> swapsDecrease cmp R xs \<Longrightarrow> swapsDecrease cmp R ys"
  by (simp add: swapsDecrease_def)

lemma bubblePass_inversions:
  assumes "bubblePass cmp i xs d = (ys, d')"
    and "swapsDecrease cmp R xs"
  shows "inversions R ys \<le> inversions R xs \<and>
     (\<not> d' \<and> d \<longrightarrow> inversions R ys < inversions R xs)"
  using assms
proof (induction cmp i xs d rule: bubblePass.induct)
  case (1 cmp i xs d)
  note sd = "1.prems"(2)
  show ?case
  proof (cases "int i < int (length xs) - 1")
    case False
    with "1.prems"(1) show ?thesis by (subst (asm) bubblePass.simps) auto
  next
    case True
    then have i: "i + 1 < length xs" by auto
    show ?thesis
    proof (cases "cmp (xs ! i) (xs ! (i + 1)) > - 1")
      case sw: True
      let ?xs' = "xs[i := xs ! (i + 1), i + 1 := xs ! i]"
      from "1.prems"(1) True sw have "bubblePass cmp (i + 1) ?xs' False = (ys, d')"
        by (subst (asm) bubblePass.simps) (simp add: Let_def)
      moreover have "mset ?xs' = mset xs" using i by (simp add: mset_swap)
      then have "swapsDecrease cmp R ?xs'" using sd by (rule swapsDecrease_mset)
      ultimately have le: "inversions R ys \<le> inversions R ?xs'"
        using "1.IH"(1)[OF True refl refl sw] by simp
      from sd sw i have "R (xs ! i) (xs ! (i + 1))" "\<not> R (xs ! (i + 1)) (xs ! i)"
        by (auto simp: swapsDecrease_def)
      with i have "inversions R ?xs' < inversions R xs" by (intro inversions_swap) auto
      with le show ?thesis by simp
    next
      case nsw: False
      from "1.prems"(1) True nsw have "bubblePass cmp (i + 1) xs d = (ys, d')"
        by (subst (asm) bubblePass.simps) (simp add: Let_def)
      from "1.IH"(2)[OF True refl refl nsw this sd] show ?thesis .
    qed
  qed
qed

lemma sortLoop_terminates:
  assumes "swapsDecrease cmp R xs"
  shows "\<exists>ys. sortLoop cmp xs = Some ys \<and> mset ys = mset xs \<and>
           (\<forall>k. k + 1 < length ys \<longrightarrow> \<not> cmp (ys ! k) (ys ! (k + 1)) > - 1)"
  using assms
proof (induction "inversions R xs" arbitrary: xs rule: less_induct)
  case less
  obtain ys d where pass: "bubblePass cmp 0 xs True = (ys, d)" by (cases "bubblePass cmp 0 xs True")
  show ?case
  proof (cases d)
    case True
    with bubblePass_done[of cmp 0 xs True ys] pass
    have ys: "ys = xs" and adj: "\<forall>k. k + 1 < length xs \<longrightarrow> \<not> cmp (xs ! k) (xs ! (k + 1)) > - 1"
      by auto
    moreover have "sortLoop cmp xs = Some xs"
      using pass True ys by (subst sortLoop.simps) simp
    ultimately show ?thesis by simp
  next
    case False
    with bubblePass_inversions[OF pass less.prems]
    have "inversions R ys < inversions R xs" by simp
    moreover have ms: "mset ys = mset xs" using pass by (rule bubblePass_mset)
    then have "swapsDecrease cmp R ys" using less.prems by (rule swapsDecrease_mset)
    ultimately obtain zs where zs: "sortLoop cmp ys = Some zs" "mset zs = mset ys"
      "\<forall>k. k + 1 < length zs \<longrightarrow> \<not> cmp (zs ! k) (zs ! (k + 1)) > - 1"
      using less.hyps by blast
    have "sortLoop cmp xs = sortLoop cmp ys"
      using pass False by (subst sortLoop.simps) simp
    with zs ms show ?thesis by simp
  qed
qed

lemma sortLoop_keyed:
  fixes key :: "Listing \<Rightarrow> int"
  assumes cmp: "\<forall>a b. cmp a b = (if key a \<ge> key b then - 1 else 1)"
  shows "\<exists>ys. sortLoop cmp xs = Some ys \<and> mset ys = mset xs \<and>
           sorted_wrt (\<lambda>a b. key a \<ge> key b) ys"
proof -
  have "swapsDecrease cmp (\<lambda>a b. key a < key b) xs"
    using cmp by (auto simp: swapsDecrease_def split: if_splits)
  from sortLoop_terminates[OF this]
  obtain ys where ys: "sortLoop cmp xs = Some ys" "mset ys = mset xs"
    "\<forall>k. k + 1 < length ys \<longrightarrow> \<not> cmp (ys ! k) (ys ! (k + 1)) > - 1" by blast
  have "sorted_wrt (\<lambda>a b. key a \<ge> key b) ys"
  proof (subst sorted_wrt_iff_nth_Suc_transp)
    show "transp (\<lambda>a b. key a \<ge> key b)" by (auto intro: transpI)
    show "\<forall>i. Suc i < length ys \<longrightarrow> key (ys ! Suc i) \<le> key (ys ! i)"
      using ys(3) cmp by (auto split: if_splits)
  qed
  with ys show ?thesis by blast
qed

lemma compareNameLoop_lexCompare:
  assumes "smallerLen = (if length as < length bs then length as else length bs)"
    and "i \<le> smallerLen"
  shows "(case compareNameLoop as bs smallerLen i of
            Some r \<Rightarrow> r
          | None \<Rightarrow> (if length as < length bs then - 1
                     else if length bs < length as then 1 else 0))
         = lexCompare (map byte (drop i as)) (map byte (drop i bs))"
  using assms
proof (induction as bs smallerLen i rule: compareNameLoop.induct)
  case (1 as bs m i)
  show ?case
  proof (cases "i < m")
    case True
    with "1.prems" have ia: "i < length as" and ib: "i < length bs" by (auto split: if_splits)
    have da: "drop i as = as ! i # drop (i + 1) as" using ia by (simp add: Cons_nth_drop_Suc)
    have db: "drop i bs = bs ! i # drop (i + 1) bs" using ib by (simp add: Cons_nth_drop_Suc)
    show ?thesis
    proof (cases "byte (as ! i) < byte (bs ! i)")
      case lt: True
      with True show ?thesis by (subst compareNameLoop.simps) (simp add: da db)
    next
      case nlt: False
      show ?thesis
      proof (cases "byte (as ! i) > byte (bs ! i)")
        case gt: True
        with True nlt show ?thesis by (subst compareNameLoop.simps) (simp add: da db)
      next
        case ngt: False
        have "i + 1 \<le> m" using True by simp
        from "1.IH"[OF True nlt ngt "1.prems"(1) this] True nlt ngt
        show ?thesis by (subst compareNameLoop.simps) (simp add: da db)
      qed
    qed
  next
    case False
    with "1.prems" have "i = m" by simp
    with "1.prems"(1) have "drop i as = [] \<and> drop i bs \<noteq> [] \<and> length as < length bs
        \<or> drop i as \<noteq> [] \<and> drop i bs = [] \<and> length bs < length as
        \<or> drop i as = [] \<and> drop i bs = [] \<and> length as = length bs"
      by (auto split: if_splits)
    moreover have "compareNameLoop as bs m i = None"
      using False by (subst compareNameLoop.simps) simp
    ultimately show ?thesis
      by (cases "drop i as"; cases "drop i bs") auto
  qed
qed

lemma compareName_lexCompare: "compareName a b = lexCompare (nameKey a) (nameKey b)"
proof -
  let ?as = "ToLower (name a)" and ?bs = "ToLower (name b)"
  have len: "length ?as = length (name a)" "length ?bs = length (name b)"
    by (simp_all add: ToLower_def)
  let ?m = "if length ?as < length ?bs then length ?as else length ?bs"
  have "(case compareNameLoop ?as ?bs ?m 0 of
            Some r \<Rightarrow> r
          | None \<Rightarrow> (if length ?as < length ?bs then - 1
                     else if length ?bs < length ?as then 1 else 0))
         = lexCompare (map byte (drop 0 ?as)) (map byte (drop 0 ?bs))"
    by (rule compareNameLoop_lexCompare) simp_all
  then show ?thesis
    unfolding compareName_def Let_def nameKey_def len drop_0 .
qed

lemma lexCompare_range: "lexCompare xs ys \<in> {- 1, 0, 1}"
  by (induction xs ys rule: lexCompare.induct) auto

lemma lexCompare_eq: "lexCompare xs ys = 0 \<longleftrightarrow> xs = ys"
  by (induction xs ys rule: lexCompare.induct) auto

lemma lexCompare_trans:
  "lexCompare xs ys = - 1 \<Longrightarrow> lexCompare ys zs = - 1 \<Longrightarrow> lexCompare xs zs = - 1"
proof (induction xs ys arbitrary: zs rule: lexCompare.induct)
  case 1
  then show ?case by simp
next
  case (2 y ys)
  then obtain z zs' where "zs = z # zs'" by (cases zs) (simp_all split: if_splits)
  then show ?case by simp
next
  case (3 x xs)
  then show ?case by simp
next
  case (4 x xs y ys)
  from "4.prems"(2) obtain z zs' where zs: "zs = z # zs'"
    by (cases zs) (simp_all split: if_splits)
  from "4.prems"(1) have xy: "x < y \<or> x = y \<and> lexCompare xs ys = - 1"
    by (simp split: if_splits)
  from "4.prems"(2) zs have yz: "y < z \<or> y = z \<and> lexCompare ys zs' = - 1"
    by (simp split: if_splits)
  show ?case
  proof (cases "x < z")
    case True
    with zs show ?thesis by simp
  next
    case False
    with xy yz have eq: "x = y" "y = z" and l: "lexCompare xs ys = - 1" "lexCompare ys zs' = - 1"
      by auto
    from eq have nlt: "\<not> x < y" "\<not> y < x" by simp_all
    from "4.IH"[OF nlt l] zs eq show ?thesis by simp
  qed
qed

lemma lexCompare_flip: "lexCompare xs ys = 1 \<Longrightarrow> lexCompare ys xs = - 1"
  by (induction xs ys rule: lexCompare.induct) (auto split: if_splits)

lemma strictly_sorted_distinct:
  assumes "\<forall>k. k + 1 < length xs \<longrightarrow> \<not> compareName (xs ! k) (xs ! (k + 1)) > - 1"
  shows "distinct (map nameKey xs)"
proof -
  let ?less = "\<lambda>a b. lexCompare (nameKey a) (nameKey b) = - 1"
  have "sorted_wrt ?less xs"
  proof (subst sorted_wrt_iff_nth_Suc_transp)
    show "transp ?less" by (rule transpI) (rule lexCompare_trans)
    show "\<forall>i. Suc i < length xs \<longrightarrow> ?less (xs ! i) (xs ! Suc i)"
    proof (intro allI impI)
      fix i assume "Suc i < length xs"
      with assms have "\<not> lexCompare (nameKey (xs ! i)) (nameKey (xs ! Suc i)) > - 1"
        by (simp add: compareName_lexCompare)
      with lexCompare_range[of "nameKey (xs ! i)" "nameKey (xs ! Suc i)"]
      show "?less (xs ! i) (xs ! Suc i)" by auto
    qed
  qed
  then have "\<forall>i j. i < j \<longrightarrow> j < length xs \<longrightarrow> ?less (xs ! i) (xs ! j)"
    by (simp add: sorted_wrt_iff_nth_less)
  moreover have "lexCompare ks ks \<noteq> - 1" for ks
    using lexCompare_eq[of ks ks] by simp
  ultimately have "\<forall>i j. i < j \<longrightarrow> j < length xs \<longrightarrow> nameKey (xs ! i) \<noteq> nameKey (xs ! j)"
    by metis
  then have "\<forall>i j. i < length xs \<longrightarrow> j < length xs \<longrightarrow> i \<noteq> j \<longrightarrow>
      nameKey (xs ! i) \<noteq> nameKey (xs ! j)"
    by (metis nat_neq_iff)
  then show ?thesis
    by (simp add: distinct_conv_nth)
qed

lemma sortLoop_compareName_distinct:
  assumes "sortLoop cmp xs = Some ys"
  shows "cmp = compareName \<longrightarrow> distinct (map nameKey xs)"
proof (rule sortLoop.raw_induct[where P = "\<lambda>c xs ys. c = compareName \<longrightarrow> distinct (map nameKey xs)",
      OF _ assms])
  fix loop :: "(Listing \<Rightarrow> Listing \<Rightarrow> int) \<Rightarrow> Listing list \<Rightarrow> Listing list option"
  fix c xs ys
  assume IH: "\<And>c xs ys. loop c xs = Some ys \<Longrightarrow> c = compareName \<longrightarrow> distinct (map nameKey xs)"
    and step: "(case bubblePass c 0 xs True of
                  (listings', done) \<Rightarrow> if done then Some listings' else loop c listings') = Some ys"
  obtain zs d where pass: "bubblePass c 0 xs True = (zs, d)" by (cases "bubblePass c 0 xs True")
  show "c = compareName \<longrightarrow> distinct (map nameKey xs)"
  proof
    assume c: "c = compareName"
    show "distinct (map nameKey xs)"
    proof (cases d)
      case True
      with bubblePass_done[of c 0 xs True zs] pass c
      have "\<forall>k. k + 1 < length xs \<longrightarrow> \<not> compareName (xs ! k) (xs ! (k + 1)) > - 1" by auto
      then show ?thesis by (rule strictly_sorted_distinct)
    next
      case False
      with step pass have "loop c zs = Some ys" by simp
      from IH[OF this] c have "distinct (map nameKey zs)" by simp
      moreover have "mset (map nameKey zs) = mset (map nameKey xs)"
        using bubblePass_mset[OF pass] by simp
      ultimately show ?thesis by (metis mset_eq_imp_distinct_iff)
    qed
  qed
qed

lemma sortLoop_compareName_diverges:
  "\<not> distinct (map nameKey xs) \<Longrightarrow> sortLoop compareName xs = None"
  using sortLoop_compareName_distinct[of compareName xs] by (cases "sortLoop compareName xs") auto

lemma sortLoop_compareName_terminates:
  assumes "distinct (map nameKey xs)"
  shows "\<exists>ys. sortLoop compareName xs = Some ys \<and> mset ys = mset xs \<and>
           sorted_wrt (\<lambda>a b. compareName a b = - 1) ys"
proof -
  let ?R = "\<lambda>a b. lexCompare (nameKey a) (nameKey b) = 1"
  have "swapsDecrease compareName ?R xs"
    unfolding swapsDecrease_def
  proof (intro allI impI)
    fix zs k
    assume ms: "mset zs = mset xs" and k: "k + 1 < length zs"
      and sw: "compareName (zs ! k) (zs ! (k + 1)) > - 1"
    from ms have "mset (map nameKey zs) = mset (map nameKey xs)" by simp
    with assms have "distinct (map nameKey zs)" by (metis mset_eq_imp_distinct_iff)
    with k have "nameKey (zs ! k) \<noteq> nameKey (zs ! (k + 1))"
      by (simp add: distinct_conv_nth)
    then have "lexCompare (nameKey (zs ! k)) (nameKey (zs ! (k + 1))) \<noteq> 0"
      by (simp add: lexCompare_eq)
    with sw lexCompare_range[of "nameKey (zs ! k)" "nameKey (zs ! (k + 1))"]
    have one: "lexCompare (nameKey (zs ! k)) (nameKey (zs ! (k + 1))) = 1"
      by (auto simp: compareName_lexCompare)
    from lexCompare_flip[OF this] one
    show "?R (zs ! k) (zs ! (k + 1)) \<and> \<not> ?R (zs ! (k + 1)) (zs ! k)" by simp
  qed
  from sortLoop_terminates[OF this]
  obtain ys where ys: "sortLoop compareName xs = Some ys" "mset ys = mset xs"
    "\<forall>k. k + 1 < length ys \<longrightarrow> \<not> compareName (ys ! k) (ys ! (k + 1)) > - 1" by blast
  have "sorted_wrt (\<lambda>a b. compareName a b = - 1) ys"
  proof (subst sorted_wrt_iff_nth_Suc_transp)
    show "transp (\<lambda>a b. compareName a b = - 1)"
      unfolding compareName_lexCompare by (rule transpI) (rule lexCompare_trans)
    show "\<forall>i. Suc i < length ys \<longrightarrow> compareName (ys ! i) (ys ! Suc i) = - 1"
    proof (intro allI impI)
      fix i assume "Suc i < length ys"
      with ys(3) have "\<not> compareName (ys ! i) (ys ! Suc i) > - 1" by simp
      with lexCompare_range[of "nameKey (ys ! i)" "nameKey (ys ! Suc i)"]
      show "compareName (ys ! i) (ys ! Suc i) = - 1" by (auto simp: compareName_lexCompare)
    qed
  qed
  with ys show ?thesis by blast
qed

lemma compareName_zero_iff: "compareName a b = 0 \<longleftrightarrow> nameKey a = nameKey b"
  by (simp add: compareName_lexCompare lexCompare_eq)

lemma distinct_nameKey_iff:
  "distinct (map nameKey xs) \<longleftrightarrow>
     \<not> (\<exists>i j. i < j \<and> j < length xs \<and> compareName (xs ! i) (xs ! j) = 0)"
proof
  assume d: "distinct (map nameKey xs)"
  show "\<not> (\<exists>i j. i < j \<and> j < length xs \<and> compareName (xs ! i) (xs ! j) = 0)"
  proof
    assume "\<exists>i j. i < j \<and> j < length xs \<and> compareName (xs ! i) (xs ! j) = 0"
    then obtain i j where ij: "i < j" "j < length xs" "nameKey (xs ! i) = nameKey (xs ! j)"
      by (auto simp: compareName_zero_iff)
    then have "i < length (map nameKey xs)" "j < length (map nameKey xs)" "i \<noteq> j"
      "map nameKey xs ! i = map nameKey xs ! j" by simp_all
    with d show False by (simp add: distinct_conv_nth)
  qed
next
  assume n: "\<not> (\<exists>i j. i < j \<and> j < length xs \<and> compareName (xs ! i) (xs ! j) = 0)"
  have "nameKey (xs ! i) \<noteq> nameKey (xs ! j)" if "i < length xs" "j < length xs" "i \<noteq> j" for i j
  proof (cases "i < j")
    case True
    with n that show ?thesis by (auto simp: compareName_zero_iff)
  next
    case False
    with that have "j < i" by simp
    with n that have "nameKey (xs ! j) \<noteq> nameKey (xs ! i)" by (auto simp: compareName_zero_iff)
    then show ?thesis by simp
  qed
  then show "distinct (map nameKey xs)" by (simp add: distinct_conv_nth)
qed

lemma compareTime_keyed:
  "\<forall>a b. compareTime a b = (if epochNano a \<ge> epochNano b then - 1 else 1)"
  by (simp add: compareTime_def)

lemma compareSize_keyed:
  "\<forall>a b. compareSize a b = (if Atoi (size_l a) \<ge> Atoi (size_l b) then - 1 else 1)"
  by (simp add: compareSize_def Let_def)

lemma sortListings_keyed:
  fixes key :: "Listing \<Rightarrow> int"
  assumes run: "sortLoop cmp xs = Some zs" "mset zs = mset xs"
    "sorted_wrt (\<lambda>a b. key a \<ge> key b) zs"
  shows "\<exists>ys. (if sortReverse options then reverseListings zs else Some zs) = Some ys \<and>
           mset ys = mset xs \<and>
           sorted_wrt (\<lambda>a b. key a \<ge> key b) (if sortReverse options then rev ys else ys)"
  using run by (simp add: reverseListings_rev)

text \<open>
  Claim C5. \<^verbatim>\<open>sortListings\<close> returns for every list when the time or the size order is
  selected, but under the default name order it returns exactly when no two listings of
  the list have names that \<^verbatim>\<open>compareName\<close> finds equal: two such listings end up next
  to each other, \<^verbatim>\<open>comparisonFunction(a, b) > -1\<close> holds for the result \<open>0\<close>, they are
  exchanged in every pass, and \<^verbatim>\<open>done\<close> is never left \<^verbatim>\<open>true\<close>. The names are taken to
  be ASCII, where \<open>ToLower\<close> is the library's function.
\<close>

theorem sortListings_returns_iff:
  assumes "\<forall>l \<in> set xs. isASCII (name l)"
  shows "(\<exists>ys. sortListings options xs = Some ys) \<longleftrightarrow>
     (sortTime options \<or> sortSize options \<or>
      \<not> (\<exists>i j. i < j \<and> j < length xs \<and> compareName (xs ! i) (xs ! j) = 0))"
proof (cases "sortTime options")
  case True
  from sortLoop_keyed[OF compareTime_keyed, of xs]
  obtain zs where "sortLoop compareTime xs = Some zs" by blast
  with True show ?thesis by (simp add: sortListings_def reverseListings_rev)
next
  case nt: False
  show ?thesis
  proof (cases "sortSize options")
    case True
    from sortLoop_keyed[OF compareSize_keyed, of xs]
    obtain zs where "sortLoop compareSize xs = Some zs" by blast
    with nt True show ?thesis by (simp add: sortListings_def reverseListings_rev)
  next
    case ns: False
    show ?thesis
    proof (cases "distinct (map nameKey xs)")
      case True
      from sortLoop_compareName_terminates[OF this]
      obtain zs where "sortLoop compareName xs = Some zs" by blast
      with nt ns have "\<exists>ys. sortListings options xs = Some ys"
        by (simp add: sortListings_def reverseListings_rev)
      with True nt ns show ?thesis by (simp add: distinct_nameKey_iff)
    next
      case False
      then have "sortLoop compareName xs = None" by (rule sortLoop_compareName_diverges)
      with nt ns have "sortListings options xs = None" by (simp add: sortListings_def)
      with False nt ns show ?thesis by (simp add: distinct_nameKey_iff)
    qed
  qed
qed

theorem sortListings_returns_iff_witness:
  "sortListings zeroOptions [named ''A'', named ''a''] = None \<and>
   (\<exists>ys. sortListings (zeroOptions \<lparr> sortSize := True \<rparr>) [named ''A'', named ''a''] = Some ys)"
proof -
  let ?xs = "[named ''A'', named ''a'']"
  have tie: "\<exists>i j. i < j \<and> j < length ?xs \<and> compareName (?xs ! i) (?xs ! j) = 0"
  proof (intro exI conjI)
    show "(0::nat) < 1" by simp
    show "1 < length ?xs" by simp
    show "compareName (?xs ! 0) (?xs ! 1) = 0"
      by (simp add: compareName_zero_iff nameKey_def named_def zeroListing_def ToLower_def
          toLowerByte_def byte_def)
  qed
  have zo: "\<not> sortTime zeroOptions" "\<not> sortSize zeroOptions"
    by (simp_all add: zeroOptions_def)
  have ascii: "\<forall>l \<in> set ?xs. isASCII (name l)"
    by (simp add: isASCII_def named_def zeroListing_def byte_def)
  have "\<not> (\<exists>ys. sortListings zeroOptions ?xs = Some ys)"
    using sortListings_returns_iff[OF ascii, of zeroOptions] tie zo by blast
  then have "sortListings zeroOptions ?xs = None" by simp
  moreover have "\<exists>ys. sortListings (zeroOptions \<lparr> sortSize := True \<rparr>) ?xs = Some ys"
    using sortListings_returns_iff[OF ascii, of "zeroOptions \<lparr> sortSize := True \<rparr>"] by simp
  ultimately show ?thesis by simp
qed

text \<open>
  Claim C6. \<^verbatim>\<open>compareName\<close> compares the lower-cased names byte by byte, so \<open>b\<close> comes
  after \<open>A\<close>, and \<open>A\<close> and \<open>a\<close> are equal. On the names \<open>b\<close>, \<open>A\<close>, \<open>a\<close> the default
  sort therefore never returns: after the first pass has produced \<open>A\<close>, \<open>a\<close>, \<open>b\<close>,
  every further pass exchanges the equal neighbours \<open>A\<close> and \<open>a\<close> again.
\<close>

theorem sortListings_b_A_a_diverges:
  "compareName (named ''b'') (named ''A'') = 1 \<and>
   compareName (named ''A'') (named ''a'') = 0 \<and>
   bubblePass compareName 0 [named ''b'', named ''A'', named ''a''] True
     = ([named ''A'', named ''a'', named ''b''], False) \<and>
   sortListings zeroOptions [named ''b'', named ''A'', named ''a''] = None"
proof -
  have keys: "nameKey (named ''b'') = [98]" "nameKey (named ''A'') = [97]"
    "nameKey (named ''a'') = [97]"
    by (simp_all add: nameKey_def named_def zeroListing_def ToLower_def toLowerByte_def byte_def)
  have c1: "compareName (named ''b'') (named ''A'') = 1"
    and c2: "compareName (named ''A'') (named ''a'') = 0"
    and c3: "compareName (named ''b'') (named ''a'') = 1"
    by (simp_all add: compareName_lexCompare keys)
  have pass: "bubblePass compareName 0 [named ''b'', named ''A'', named ''a''] True
     = ([named ''A'', named ''a'', named ''b''], False)"
    by (simp add: bubblePass.simps c1 c3)
  have "\<not> distinct (map nameKey [named ''b'', named ''A'', named ''a''])"
    by (simp add: keys)
  then have "sortLoop compareName [named ''b'', named ''A'', named ''a''] = None"
    by (rule sortLoop_compareName_diverges)
  then have "sortListings zeroOptions [named ''b'', named ''A'', named ''a''] = None"
    by (simp add: sortListings_def zeroOptions_def)
  with c1 c2 pass show ?thesis by simp
qed

section \<open>The size order\<close>

text \<open>
  What \<^verbatim>\<open>sortListings\<close> sorts by when \<^verbatim>\<open>sortSize\<close> is set and \<^verbatim>\<open>sortTime\<close> is not (the
  time order wins when both are set): the value that \<^verbatim>\<open>strconv.Atoi\<close> returns for the
  size string, largest first, and smallest first when \<^verbatim>\<open>sortReverse\<close> is set too.
\<close>

lemma sortListings_by_Atoi:
  assumes "sortSize options" and "\<not> sortTime options"
  shows "\<exists>ys. sortListings options xs = Some ys \<and> mset ys = mset xs \<and>
           sorted_wrt (\<lambda>a b. Atoi (size_l a) \<ge> Atoi (size_l b))
             (if sortReverse options then rev ys else ys)"
proof -
  from sortLoop_keyed[OF compareSize_keyed, of xs]
  obtain zs where zs: "sortLoop compareSize xs = Some zs" "mset zs = mset xs"
    "sorted_wrt (\<lambda>a b. Atoi (size_l a) \<ge> Atoi (size_l b)) zs" by blast
  from sortListings_keyed[OF zs, of options] assms zs(1)
  show ?thesis by (simp add: sortListings_def)
qed

text \<open>
  \<^verbatim>\<open>strconv.Atoi\<close> does not read the \<open>1\<close> of \<open>1.5K\<close>: it rejects a string with a byte
  that is not a digit, and the error that \<^verbatim>\<open>compareSize\<close> drops leaves the value \<open>0\<close>.
\<close>

lemma Atoi_human_readable: "Atoi ''1.5K'' = 0" "Atoi ''2.5K'' = 0" "Atoi ''14K'' = 0" "Atoi ''0B'' = 0"
  by (simp_all add: Atoi_def ParseInt_def ParseUint_def isDigit_def byte_def)

text \<open>
  Claim C8 says that the size order is the descending order of the integer portion of
  the displayed size, the \<open>1\<close> of \<open>1.5K\<close>, and the comment of \<^verbatim>\<open>compareSize\<close> says
  ``from largest to smallest''. The code does neither for human-readable sizes. With the
  options \<^verbatim>\<open>human\<close> and \<^verbatim>\<open>sortSize\<close>, files of 1536 and 2560 bytes are displayed as
  \<open>1.5K\<close> and \<open>2.5K\<close>; \<^verbatim>\<open>strconv.Atoi\<close> gives \<open>0\<close> for both, \<^verbatim>\<open>compareSize\<close>
  answers \<open>-1\<close>, nothing is exchanged, and \<^verbatim>\<open>sortListings\<close> returns the two listings
  with the smaller one first, which is not the descending order of the integer portions
  \<open>1\<close> and \<open>2\<close>.
\<close>

theorem sortListings_by_size_human_readable:
  "createListing_size (zeroOptions \<lparr> human := True, sortSize := True \<rparr>) 1536 = ''1.5K'' \<and>
   createListing_size (zeroOptions \<lparr> human := True, sortSize := True \<rparr>) 2560 = ''2.5K'' \<and>
   Atoi ''1.5K'' = 0 \<and> Atoi ''2.5K'' = 0 \<and>
   compareSize (sized ''1.5K'') (sized ''2.5K'') = - 1 \<and>
   sortListings (zeroOptions \<lparr> human := True, sortSize := True \<rparr>)
       [sized ''1.5K'', sized ''2.5K'']
     = Some [sized ''1.5K'', sized ''2.5K''] \<and>
   integerPortion ''1.5K'' = 1 \<and> integerPortion ''2.5K'' = 2 \<and>
   \<not> descendingByIntegerPortion [sized ''1.5K'', sized ''2.5K'']"
proof -
  let ?o = "zeroOptions \<lparr> human := True, sortSize := True \<rparr>"
  have shown: "createListing_size ?o 1536 = ''1.5K''" "createListing_size ?o 2560 = ''2.5K''"
    by code_simp+
  have cmp: "compareSize (sized ''1.5K'') (sized ''2.5K'') = - 1"
    by (simp add: compareSize_def sized_def zeroListing_def Atoi_human_readable)
  have pass: "bubblePass compareSize 0 [sized ''1.5K'', sized ''2.5K''] True
      = ([sized ''1.5K'', sized ''2.5K''], True)"
    by (simp add: bubblePass.simps cmp)
  have "sortLoop compareSize [sized ''1.5K'', sized ''2.5K'']
      = Some [sized ''1.5K'', sized ''2.5K'']"
    by (subst sortLoop.simps) (simp add: pass)
  then have run: "sortListings ?o [sized ''1.5K'', sized ''2.5K'']
     = Some [sized ''1.5K'', sized ''2.5K'']"
    by (simp add: sortListings_def zeroOptions_def)
  have portions: "integerPortion ''1.5K'' = 1" "integerPortion ''2.5K'' = 2"
    by (simp_all add: integerPortion_def isDigit_def byte_def digitsValue_def)
  then have "\<not> descendingByIntegerPortion [sized ''1.5K'', sized ''2.5K'']"
    by (simp add: descendingByIntegerPortion_def sized_def zeroListing_def)
  with shown cmp run portions show ?thesis by (simp add: Atoi_human_readable)
qed

section \<open>The BSD color specification\<close>

lemma getColorFromBsdCode_total:
  "length code = 2 \<Longrightarrow> \<exists>c. getColorFromBsdCode code = Inr c"
  by (simp add: getColorFromBsdCode_def index_def bindP_def)

lemma bsdKey_None_iff: "even i \<Longrightarrow> bsdKey i = None \<longleftrightarrow> 20 < i"
proof -
  assume "even i"
  then obtain k where k: "i = 2 * k" by (auto elim: evenE)
  have "k = 0 \<or> k = 1 \<or> k = 2 \<or> k = 3 \<or> k = 4 \<or> k = 5 \<or> k = 6 \<or> k = 7 \<or> k = 8
      \<or> k = 9 \<or> k = 10 \<or> 10 < k" by presburger
  then show ?thesis
    unfolding k bsdKey_def by auto
qed

lemma parseLscolorsLoop_result:
  assumes "even i"
  shows "(odd (length s) \<and> i < length s \<and> length s < 22 \<longrightarrow>
            parseLscolorsLoop i s m = Inl SliceOutOfRange) \<and>
         (\<not> (odd (length s) \<and> i < length s \<and> length s < 22) \<longrightarrow>
            (\<exists>m'. parseLscolorsLoop i s m = Inr m'))"
  using assms
proof (induction i s m rule: parseLscolorsLoop.induct)
  case (1 i s m)
  note ev = "1.prems"
  then have ev2: "even (i + 2)" by simp
  show ?case
  proof (cases "i < length s")
    case False
    then have "parseLscolorsLoop i s m = Inr m"
      by (subst parseLscolorsLoop.simps) simp
    with False show ?thesis by simp
  next
    case True
    show ?thesis
    proof (cases "bsdKey i")
      case None
      with ev have big: "20 < i" by (simp add: bsdKey_None_iff)
      from True None have "parseLscolorsLoop i s m = parseLscolorsLoop (i + 2) s m"
        by (subst parseLscolorsLoop.simps) simp
      moreover from "1.IH"(1)[OF True None ev2] big True
      have "\<exists>m'. parseLscolorsLoop (i + 2) s m = Inr m'" by auto
      ultimately show ?thesis using big True by auto
    next
      case (Some key)
      with ev have small: "i \<le> 20" using bsdKey_None_iff[of i] by auto
      show ?thesis
      proof (cases "i + 2 \<le> length s")
        case False
        with True have len: "length s = i + 1" by simp
        from False have "slice s i (i + 2) = Inl SliceOutOfRange" by (simp add: slice_def)
        with True Some have "parseLscolorsLoop i s m = Inl SliceOutOfRange"
          by (subst parseLscolorsLoop.simps) (simp add: bindP_def)
        with len ev small show ?thesis by simp
      next
        case fits: True
        let ?code = "take 2 (drop i s)"
        from fits have sl: "slice s i (i + 2) = Inr ?code" by (simp add: slice_def)
        from fits have "length ?code = 2" by simp
        from getColorFromBsdCode_total[OF this]
        obtain c where c: "getColorFromBsdCode ?code = Inr c" by blast
        define r where "r = parseLscolorsLoop (i + 2) s (m(key \<mapsto> c))"
        from True Some sl c have step: "parseLscolorsLoop i s m = r"
          unfolding r_def by (subst parseLscolorsLoop.simps) (simp add: bindP_def)
        have odd_further: "odd (length s) \<Longrightarrow> i + 2 < length s"
          using fits ev by presburger
        have ih: "(odd (length s) \<and> i + 2 < length s \<and> length s < 22 \<longrightarrow> r = Inl SliceOutOfRange) \<and>
            (\<not> (odd (length s) \<and> i + 2 < length s \<and> length s < 22) \<longrightarrow> (\<exists>m'. r = Inr m'))"
          unfolding r_def by (rule "1.IH"(2)[OF True Some ev2])
        show ?thesis unfolding step using ih odd_further True by blast
      qed
    qed
  qed
qed

lemma parseLscolors_result:
  "(odd (length s) \<and> length s < 22 \<longrightarrow> parseLscolors s m = Inl SliceOutOfRange) \<and>
   (\<not> (odd (length s) \<and> length s < 22) \<longrightarrow> (\<exists>m'. parseLscolors s m = Inr m'))"
proof -
  have "odd (length s) \<Longrightarrow> 0 < length s" by (cases s) auto
  with parseLscolorsLoop_result[of 0 s m] show ?thesis
    by (auto simp: parseLscolors_def)
qed

text \<open>
  Claim C10. Building the color table from \<^verbatim>\<open>LSCOLORS\<close> does not stay in bounds for
  every string: \<^verbatim>\<open>parseLscolors\<close> ends in the panic of an out-of-range slice exactly
  when the length of the string is odd and below 22 (the last step then takes
  \<^verbatim>\<open>LSCOLORS[i : i+2]\<close> with only one byte left), and it returns a table for every
  other string, whatever its letters are.
\<close>

theorem parseLscolors_panics_iff:
  "(parseLscolors LSCOLORS colorMap = Inl SliceOutOfRange
      \<longleftrightarrow> odd (length LSCOLORS) \<and> length LSCOLORS < 22) \<and>
   ((\<exists>colorMap'. parseLscolors LSCOLORS colorMap = Inr colorMap')
      \<longleftrightarrow> even (length LSCOLORS) \<or> 21 < length LSCOLORS)"
proof (cases "odd (length LSCOLORS) \<and> length LSCOLORS < 22")
  case True
  with parseLscolors_result[of LSCOLORS colorMap]
  have "parseLscolors LSCOLORS colorMap = Inl SliceOutOfRange" by simp
  with True show ?thesis by auto
next
  case False
  with parseLscolors_result[of LSCOLORS colorMap]
  obtain m' where "parseLscolors LSCOLORS colorMap = Inr m'" by auto
  with False show ?thesis by auto
qed

theorem parseLscolors_panics_iff_witness:
  "parseLscolors ''e'' Map.empty = Inl SliceOutOfRange \<and>
   determineColors [] ''exf'' = Inl SliceOutOfRange \<and>
   (\<exists>colorMap'. determineColors [] [] = Inr colorMap')"
proof -
  have 1: "parseLscolors ''e'' Map.empty = Inl SliceOutOfRange"
    using parseLscolors_panics_iff[of "''e''" Map.empty] by simp
  have 2: "parseLscolors ''exf'' m = Inl SliceOutOfRange" for m
    using parseLscolors_panics_iff[of "''exf''" m] by simp
  have 3: "\<exists>colorMap'. parseLscolors ''exfxcxdxbxegedabagacad'' m = Inr colorMap'" for m
    using parseLscolors_panics_iff[of "''exfxcxdxbxegedabagacad''" m] by simp
  from 1 2 3 show ?thesis by (simp add: determineColors_def)
qed

section \<open>The System-V color specification\<close>

lemma Split_no_sep: "sep \<notin> set s \<Longrightarrow> Split s sep = [s]"
  by (induction s) auto

lemma Split_append_sep: "sep \<notin> set a \<Longrightarrow> Split (a @ sep # rest) sep = a # Split rest sep"
  by (induction a) auto

lemma Split_pair:
  "CHR ''='' \<notin> set k \<Longrightarrow> CHR ''='' \<notin> set c \<Longrightarrow> Split (k @ ''='' @ c) (CHR ''='') = [k, c]"
  by (simp add: Split_append_sep Split_no_sep)

lemma Split_lsColorsString:
  assumes "kvs \<noteq> []"
    and "\<forall>(k, c) \<in> set kvs. CHR '':'' \<notin> set (k @ c) \<and> CHR ''='' \<notin> set (k @ c)"
  shows "Split (lsColorsString kvs) (CHR '':'') = map (\<lambda>(k, c). k @ ''='' @ c) kvs"
  using assms
proof (induction kvs rule: lsColorsString.induct)
  case 1
  then show ?case by simp
next
  case (2 k c)
  then have "CHR '':'' \<notin> set (k @ ''='' @ c)" by simp
  then show ?case by (simp add: Split_no_sep)
next
  case (3 k c kv kvs)
  then have no: "CHR '':'' \<notin> set (k @ ''='' @ c)" by simp
  have "lsColorsString ((k, c) # kv # kvs) = (k @ ''='' @ c) @ CHR '':'' # lsColorsString (kv # kvs)"
    by (cases kv) simp
  then have "Split (lsColorsString ((k, c) # kv # kvs)) (CHR '':'')
      = (k @ ''='' @ c) # Split (lsColorsString (kv # kvs)) (CHR '':'')"
    using Split_append_sep[OF no] by simp
  with 3 show ?case by simp
qed

lemma storeLsColor_sysvCategory:
  "storeLsColor key colorCode colorMap = colorMap(sysvCategory key \<mapsto> colorCode)"
  by (simp add: storeLsColor_def sysvCategory_def)

lemma parseLsColors_pairs:
  assumes "\<forall>(k, c) \<in> set kvs. CHR ''='' \<notin> set (k @ c)"
  shows "parseLsColors (map (\<lambda>(k, c). k @ ''='' @ c) kvs) m = Inr (storeAll kvs m)"
  using assms
proof (induction kvs arbitrary: m)
  case Nil
  then show ?case by simp
next
  case (Cons kv kvs)
  obtain k c where kv: "kv = (k, c)" by (cases kv)
  with Cons.prems have "Split (k @ ''='' @ c) (CHR ''='') = [k, c]"
    by (intro Split_pair) auto
  moreover from Cons have "parseLsColors (map (\<lambda>(k, c). k @ ''='' @ c) kvs) m'
      = Inr (storeAll kvs m')" for m' by simp
  ultimately show ?case
    by (simp add: kv Let_def storeLsColor_sysvCategory)
qed

lemma storeAll_other:
  "key \<notin> set (map (\<lambda>(k, c). sysvCategory k) kvs) \<Longrightarrow> storeAll kvs m key = m key"
  by (induction kvs arbitrary: m) auto

lemma storeAll_entry:
  "distinct (map (\<lambda>(k, c). sysvCategory k) kvs) \<Longrightarrow> (k, c) \<in> set kvs \<Longrightarrow>
     storeAll kvs m (sysvCategory k) = Some ([ESC, CHR ''[''] @ c @ ''m'')"
proof (induction kvs arbitrary: m)
  case Nil
  then show ?case by simp
next
  case (Cons kv kvs)
  obtain k' c' where kv: "kv = (k', c')" by (cases kv)
  show ?case
  proof (cases "(k, c) = (k', c')")
    case True
    with Cons.prems kv have "sysvCategory k \<notin> set (map (\<lambda>(k, c). sysvCategory k) kvs)" by simp
    from storeAll_other[OF this] True kv show ?thesis by simp
  next
    case False
    with Cons.prems kv have "(k, c) \<in> set kvs" "distinct (map (\<lambda>(k, c). sysvCategory k) kvs)"
      by auto
    from Cons.IH[OF this(2,1)] kv show ?thesis by simp
  qed
qed

lemma lsColorsString_nonempty: "kvs \<noteq> [] \<Longrightarrow> lsColorsString kvs \<noteq> []"
  by (induction kvs rule: lsColorsString.induct) auto

text \<open>
  Claim C4, as the code has it. For a non-empty list of pairs whose keys and codes hold
  neither \<^verbatim>\<open>:\<close> nor \<^verbatim>\<open>=\<close>, with \<^verbatim>\<open>LSCOLORS\<close> unset, the table built from
  \<^verbatim>\<open>key=code:...\<close> is the default \<^verbatim>\<open>end\<close> entry updated, pair by pair from the left,
  at the category of the key with \<^verbatim>\<open>ESC[<code>m\<close>; there is no error. A recognized
  two-letter key has the category of the specification's table, and every other key,
  \<^verbatim>\<open>ca\<close> and \<^verbatim>\<open>do\<close> included, is stored under its own name. When no two pairs share a
  category, every pair is found in the table under its category.
\<close>

theorem determineColors_sysv:
  assumes "kvs \<noteq> []"
    and "\<forall>(k, c) \<in> set kvs. CHR '':'' \<notin> set (k @ c) \<and> CHR ''='' \<notin> set (k @ c)"
  shows "\<exists>colorMap.
           determineColors (lsColorsString kvs) [] = Inr colorMap \<and>
           colorMap = storeAll kvs [''end'' \<mapsto> [ESC, CHR ''[''] @ ''0m''] \<and>
           (distinct (map (\<lambda>(k, c). sysvCategory k) kvs) \<longrightarrow>
              (\<forall>(k, c) \<in> set kvs. colorMap (sysvCategory k) = Some ([ESC, CHR ''[''] @ c @ ''m'')))"
proof -
  let ?m0 = "[''end'' \<mapsto> [ESC, CHR ''[''] @ ''0m'']"
  from assms(2) have eq: "\<forall>(k, c) \<in> set kvs. CHR ''='' \<notin> set (k @ c)" by auto
  have "determineColors (lsColorsString kvs) []
      = parseLsColors (Split (lsColorsString kvs) (CHR '':'')) ?m0"
    using lsColorsString_nonempty[OF assms(1)] by (simp add: determineColors_def)
  also have "\<dots> = Inr (storeAll kvs ?m0)"
    unfolding Split_lsColorsString[OF assms] by (rule parseLsColors_pairs[OF eq])
  finally have run: "determineColors (lsColorsString kvs) [] = Inr (storeAll kvs ?m0)" .
  moreover have "distinct (map (\<lambda>(k, c). sysvCategory k) kvs) \<longrightarrow>
      (\<forall>(k, c) \<in> set kvs. storeAll kvs ?m0 (sysvCategory k) = Some ([ESC, CHR ''[''] @ c @ ''m''))"
    using storeAll_entry by fastforce
  ultimately show ?thesis by blast
qed

theorem determineColors_sysv_witness:
  "tableEntry (determineColors ''di=01;34:ln=01;36'' []) ''directory''
     = Some ([ESC, CHR ''[''] @ ''01;34m'') \<and>
   tableEntry (determineColors ''di=01;34:ln=01;36'' []) ''symlink''
     = Some ([ESC, CHR ''[''] @ ''01;36m'') \<and>
   tableEntry (determineColors ''di=01;34:ln=01;36'' []) ''end''
     = Some ([ESC, CHR ''[''] @ ''0m'')"
proof -
  let ?kvs = "[(''di'', ''01;34''), (''ln'', ''01;36'')]"
  have s: "lsColorsString ?kvs = ''di=01;34:ln=01;36''" by simp
  have wf: "\<forall>(k, c) \<in> set ?kvs. CHR '':'' \<notin> set (k @ c) \<and> CHR ''='' \<notin> set (k @ c)" by simp
  from determineColors_sysv[of ?kvs, OF _ wf]
  have "determineColors ''di=01;34:ln=01;36'' []
      = Inr (storeAll ?kvs [''end'' \<mapsto> [ESC, CHR ''[''] @ ''0m''])"
    unfolding s by simp
  then show ?thesis by (simp add: tableEntry_def sysvCategory_def)
qed

text \<open>
  The claim as worded fails for the keys \<^verbatim>\<open>ca\<close> and \<^verbatim>\<open>do\<close>: no branch of the chain
  in \<^verbatim>\<open>ls\<close> names them, so they fall into the final \<^verbatim>\<open>else\<close> and get an entry like any
  other unrecognized key.
\<close>

theorem determineColors_ca_do_counterexample:
  "tableEntry (determineColors ''ca=30;41:do=01;35'' []) ''ca''
     = Some ([ESC, CHR ''[''] @ ''30;41m'') \<and>
   tableEntry (determineColors ''ca=30;41:do=01;35'' []) ''do''
     = Some ([ESC, CHR ''[''] @ ''01;35m'')"
  by (simp add: tableEntry_def determineColors_def Let_def storeLsColor_def)

section \<open>The permission string\<close>

lemma Replace1_head: "old \<noteq> [] \<Longrightarrow> Replace1 (old @ rest) old new = new @ rest"
  by (cases old) simp_all

lemma createListing_permissions_symlink:
  "createListing_permissions True (CHR ''L'' # rwx) = Inr (CHR ''l'' # rwx)"
  by (simp add: createListing_permissions_def)

lemma createListing_permissions_char_device:
  "createListing_permissions False (''Dc'' @ rwx) = Inr (CHR ''c'' # rwx)"
  by (simp add: createListing_permissions_def ifP_def bindP_def index_def slice_def)

lemma createListing_permissions_D_dropped:
  "createListing_permissions False (CHR ''D'' # rwx) = Inr rwx"
  by (simp add: createListing_permissions_def ifP_def bindP_def index_def slice_def)

lemma createListing_permissions_setuid_setgid:
  assumes "length rwx = 9"
  shows "\<exists>p. createListing_permissions False (''ug'' @ rwx) = Inr p \<and> length p = 10"
proof -
  have "Replace1 (''ug'' @ rwx) ''ug'' ''-'' = ''-'' @ rwx" by (rule Replace1_head) simp
  then show ?thesis using assms
    by (simp add: createListing_permissions_def ifP_def bindP_def index_def slice_def Let_def)
qed

lemma createListing_permissions_setuid:
  assumes "length rwx = 9" and "hd rwx \<noteq> CHR ''g''"
  shows "\<exists>p. createListing_permissions False (CHR ''u'' # rwx) = Inr p \<and> length p = 10"
proof -
  from assms obtain r rest where rwx: "rwx = r # rest" "r \<noteq> CHR ''g''" by (cases rwx) auto
  then show ?thesis using assms(1)
    by (simp add: createListing_permissions_def ifP_def bindP_def index_def slice_def Let_def)
qed

lemma createListing_permissions_setgid:
  assumes "length rwx = 9"
  shows "\<exists>p. createListing_permissions False (CHR ''g'' # rwx) = Inr p \<and> length p = 10"
proof -
  from assms obtain r rest where rwx: "rwx = r # rest" by (cases rwx) auto
  then show ?thesis using assms(1)
    by (simp add: createListing_permissions_def ifP_def bindP_def index_def slice_def Let_def)
qed

lemma createListing_permissions_dir_sticky:
  assumes "length rwx = 9"
  shows "\<exists>p. createListing_permissions False (''dt'' @ rwx) = Inr p \<and> length p = 10"
proof -
  have "Replace1 (''dt'' @ rwx) ''dt'' ''d'' = ''d'' @ rwx" by (rule Replace1_head) simp
  then show ?thesis using assms
    by (simp add: createListing_permissions_def ifP_def bindP_def index_def slice_def Let_def)
qed

lemma createListing_permissions_canonical:
  assumes "length rwx = 9" and "t \<notin> {CHR ''D'', CHR ''u'', CHR ''g''}"
    and "hd rwx \<noteq> CHR ''t''"
  shows "createListing_permissions False (t # rwx) = Inr (t # rwx)"
proof -
  from assms obtain r rest where rwx: "rwx = r # rest" "r \<noteq> CHR ''t''" by (cases rwx) auto
  then show ?thesis using assms(1,2)
    by (simp add: createListing_permissions_def ifP_def bindP_def index_def slice_def Let_def)
qed

text \<open>
  Claim C3. The permission string is not always ten characters long: for the mode string
  of a block device, \<^verbatim>\<open>D\<close> followed by the nine permission characters, the branch
  \<^verbatim>\<open>permissions[0] == 'D'\<close> drops the first character and leaves nine. (For a character
  device, \<^verbatim>\<open>Dc\<close> and nine characters, the same branch leaves the ten characters that
  begin with \<^verbatim>\<open>c\<close>.)
\<close>

theorem createListing_permissions_block_device:
  "createListing_permissions False ''Drw-rw----'' = Inr ''rw-rw----'' \<and>
   length ''rw-rw----'' = 9 \<and>
   createListing_permissions False ''Dcrw-rw-rw-'' = Inr ''crw-rw-rw-''"
  by (simp add: createListing_permissions_def ifP_def bindP_def index_def slice_def)

section \<open>The size field\<close>

lemma digit_cases:
  "0 \<le> d \<Longrightarrow> d < 10 \<Longrightarrow>
     d = 0 \<or> d = 1 \<or> d = 2 \<or> d = 3 \<or> d = 4 \<or> d = 5 \<or> d = 6 \<or> d = 7 \<or> d = 8 \<or> d = (9::int)"
  by presburger

lemma digitChar_values:
  "digitChar 0 = CHR ''0''" "digitChar 1 = CHR ''1''" "digitChar 2 = CHR ''2''"
  "digitChar 3 = CHR ''3''" "digitChar 4 = CHR ''4''" "digitChar 5 = CHR ''5''"
  "digitChar 6 = CHR ''6''" "digitChar 7 = CHR ''7''" "digitChar 8 = CHR ''8''"
  "digitChar 9 = CHR ''9''"
  by code_simp+

lemma isDigit_digitChar: "0 \<le> d \<Longrightarrow> d < 10 \<Longrightarrow> isDigit (digitChar d)"
  using digit_cases[of d] by (auto simp: digitChar_values isDigit_def byte_def)

lemma digitChar_zero_iff: "0 \<le> d \<Longrightarrow> d < 10 \<Longrightarrow> digitChar d = CHR ''0'' \<longleftrightarrow> d = 0"
  using digit_cases[of d] by (auto simp: digitChar_values)

lemma dot_not_digit: "\<not> isDigit (CHR ''.'')"
  by (simp add: isDigit_def byte_def)

lemma showDec_digits: "0 \<le> n \<Longrightarrow> showDec n \<noteq> [] \<and> list_all isDigit (showDec n)"
proof (induction n rule: showDec.induct)
  case (1 n)
  show ?case
  proof (cases "n < 10")
    case True
    with "1.prems" show ?thesis
      by (subst (1 2) showDec.simps) (simp add: isDigit_digitChar)
  next
    case False
    then have "0 \<le> n div 10" by simp
    with "1.IH"[OF False] have "list_all isDigit (showDec (n div 10))" by simp
    moreover have "isDigit (digitChar (n mod 10))" by (rule isDigit_digitChar) simp_all
    ultimately show ?thesis using False
      by (subst (1 2) showDec.simps) simp
  qed
qed

lemma sizeLoop_nonneg:
  "0 \<le> sz \<Longrightarrow> 0 \<le> cnt \<Longrightarrow> sizeLoop sz cnt = (sz', cnt') \<Longrightarrow> 0 \<le> sz' \<and> 0 \<le> cnt'"
proof (induction sz cnt rule: sizeLoop.induct)
  case (1 sz cnt)
  show ?case
  proof (cases "1 \<le> sz")
    case True
    with "1.prems"(3) have "sizeLoop (sz / 1024) (cnt + 1) = (sz', cnt')"
      by (subst (asm) sizeLoop.simps) simp
    with "1.IH"[OF True] "1.prems"(1,2) show ?thesis by simp
  next
    case False
    with "1.prems"(3) have "sz' = sz" "cnt' = cnt"
      by (subst (asm) sizeLoop.simps; simp)+
    with "1.prems"(1,2) show ?thesis by simp
  qed
qed

lemma float64_nonneg: "0 \<le> n \<Longrightarrow> 0 \<le> float64 n"
proof -
  assume n: "0 \<le> n"
  define e where "e = bitLength \<bar>n\<bar> - 53"
  define q' where "q' = (if 2 * (\<bar>n\<bar> mod 2 ^ e) > 2 ^ e
      \<or> (2 * (\<bar>n\<bar> mod 2 ^ e) = 2 ^ e \<and> odd (\<bar>n\<bar> div 2 ^ e))
    then \<bar>n\<bar> div 2 ^ e + 1 else \<bar>n\<bar> div 2 ^ e)"
  have "0 \<le> \<bar>n\<bar> div 2 ^ e" by (simp add: pos_imp_zdiv_nonneg_iff)
  then have "0 \<le> q'" by (simp add: q'_def)
  then have "0 \<le> sgn n * (q' * 2 ^ e)" using n by (simp add: sgn_if)
  then have "0 \<le> (of_int (sgn n * (q' * 2 ^ e)) :: rat)" by (simp only: of_int_0_le_iff)
  moreover have "float64 n = of_int (sgn n * (q' * 2 ^ e))"
    by (simp only: float64_def Let_def e_def q'_def)
  ultimately show ?thesis by simp
qed

lemma sizeSuffix_char: "\<exists>c. sizeSuffix k = [c] \<and> c \<in> set ''BKMGTPE?''"
  by (simp add: sizeSuffix_def)

lemma roundHalfEven_nonneg: "0 \<le> x \<Longrightarrow> 0 \<le> roundHalfEven x"
  by (simp add: roundHalfEven_def Let_def)

lemma dropDotZero_digits:
  assumes "list_all isDigit ds"
  shows "dropDotZero (ds @ [c]) suffix = ds @ [c]"
proof -
  have "take 2 (drop (length (ds @ [c]) - 3) (ds @ [c])) \<noteq> ''.0''" if "3 < length (ds @ [c])"
  proof
    assume eq: "take 2 (drop (length (ds @ [c]) - 3) (ds @ [c])) = ''.0''"
    from that have len: "2 \<le> length ds" by simp
    then have "take 2 (drop (length (ds @ [c]) - 3) (ds @ [c])) = drop (length ds - 2) ds"
      by simp
    with eq have "drop (length ds - 2) ds = ''.0''" by simp
    then have "CHR ''.'' \<in> set (drop (length ds - 2) ds)" by simp
    then have "CHR ''.'' \<in> set ds" by (rule in_set_dropD)
    with assms show False using dot_not_digit by (auto simp: list_all_iff)
  qed
  then show ?thesis by (auto simp: dropDotZero_def)
qed

lemma dropDotZero_fraction:
  "ds \<noteq> [] \<Longrightarrow> dropDotZero (ds @ [CHR ''.'', d, c]) [c] =
     (if d = CHR ''0'' then ds @ [c] else ds @ [CHR ''.'', d, c])"
  by (simp add: dropDotZero_def)

lemma humanSize_format:
  assumes "0 \<le> bytes"
  shows "\<exists>ds frac c.
           (case humanSizeStr bytes of (sizeStr, suffix) \<Rightarrow> dropDotZero sizeStr suffix)
             = ds @ frac @ [c] \<and>
           ds \<noteq> [] \<and> list_all isDigit ds \<and> c \<in> set ''BKMGTPE?'' \<and>
           (frac = [] \<or> (\<exists>d. frac = [CHR ''.'', d] \<and> isDigit d \<and> d \<noteq> CHR ''0''))"
proof -
  obtain sz cnt where loop: "sizeLoop (float64 bytes) 0 = (sz, cnt)"
    by (cases "sizeLoop (float64 bytes) 0")
  from sizeLoop_nonneg[OF float64_nonneg[OF assms] _ loop]
  have nn: "0 \<le> sz" "0 \<le> cnt" by simp_all
  define sz2 where "sz2 = (if cnt > 0 then sz * 1024 else sz)"
  define cnt2 where "cnt2 = (if cnt > 0 then cnt - 1 else cnt)"
  from nn have nn2: "0 \<le> sz2" "0 \<le> cnt2" by (simp_all add: sz2_def cnt2_def)
  obtain c where c: "sizeSuffix cnt2 = [c]" "c \<in> set ''BKMGTPE?''"
    using sizeSuffix_char by blast
  have str: "humanSizeStr bytes =
      ((if cnt2 = 0 then Itoa (truncateInt64 sz2) @ [c] else formatF1 sz2 @ [c]), [c])"
    using nn by (simp add: humanSizeStr_def loop Let_def sz2_def cnt2_def c(1)[symmetric])
  show ?thesis
  proof (cases "cnt2 = 0")
    case True
    let ?ds = "showDec \<lfloor>sz2\<rfloor>"
    have ds: "?ds \<noteq> []" "list_all isDigit ?ds"
      using showDec_digits[of "\<lfloor>sz2\<rfloor>"] nn2 by simp_all
    have "Itoa (truncateInt64 sz2) = ?ds"
      using nn2 by (simp add: Itoa_def truncateInt64_def)
    with str True have "(case humanSizeStr bytes of (sizeStr, suffix) \<Rightarrow> dropDotZero sizeStr suffix)
        = ?ds @ [] @ [c]"
      by (simp add: dropDotZero_digits[OF ds(2)])
    with ds c(2) show ?thesis by blast
  next
    case False
    define tenths where "tenths = roundHalfEven (\<bar>sz2\<bar> * 10)"
    have t: "0 \<le> tenths" unfolding tenths_def by (rule roundHalfEven_nonneg) simp
    let ?ds = "showDec (tenths div 10)"
    let ?d = "digitChar (tenths mod 10)"
    have ds: "?ds \<noteq> []" "list_all isDigit ?ds"
      using showDec_digits[of "tenths div 10"] t by (simp_all add: pos_imp_zdiv_nonneg_iff)
    have d: "isDigit ?d" by (rule isDigit_digitChar) simp_all
    have "formatF1 sz2 = ?ds @ [CHR ''.'', ?d]"
      using nn2 by (simp add: formatF1_def Let_def tenths_def)
    with str False have res: "(case humanSizeStr bytes of (sizeStr, suffix) \<Rightarrow> dropDotZero sizeStr suffix)
        = (if ?d = CHR ''0'' then ?ds @ [c] else ?ds @ [CHR ''.'', ?d, c])"
      using dropDotZero_fraction[OF ds(1), of ?d c] by simp
    show ?thesis
    proof (cases "?d = CHR ''0''")
      case True
      with res have "(case humanSizeStr bytes of (sizeStr, suffix) \<Rightarrow> dropDotZero sizeStr suffix)
        = ?ds @ [] @ [c]" by simp
      with ds c(2) show ?thesis by blast
    next
      case nz: False
      with res have "(case humanSizeStr bytes of (sizeStr, suffix) \<Rightarrow> dropDotZero sizeStr suffix)
        = ?ds @ [CHR ''.'', ?d] @ [c]" by simp
      with ds c(2) d nz show ?thesis by blast
    qed
  qed
qed

text \<open>
  Claim C9. With the \<^verbatim>\<open>human\<close> option the size field of 0 bytes is \<open>0B\<close>, of 1024 bytes
  \<open>1K\<close> (the string \<open>1.0K\<close> with its \<open>.0\<close> dropped) and of 1536 bytes \<open>1.5K\<close>. For
  every byte count that is not negative the field is a non-empty run of decimal digits,
  then either nothing or a point and one digit other than \<open>0\<close>, then one of the
  suffixes \<open>B K M G T P E ?\<close>.
\<close>

theorem createListing_size_human:
  assumes "human options"
  shows "createListing_size options 0 = ''0B'' \<and>
         fst (humanSizeStr 1024) = ''1.0K'' \<and>
         createListing_size options 1024 = ''1K'' \<and>
         createListing_size options 1536 = ''1.5K'' \<and>
         (0 \<le> bytes \<longrightarrow>
           (\<exists>ds frac c.
              createListing_size options bytes = ds @ frac @ [c] \<and>
              ds \<noteq> [] \<and> list_all isDigit ds \<and> c \<in> set ''BKMGTPE?'' \<and>
              (frac = [] \<or> (\<exists>d. frac = [CHR ''.'', d] \<and> isDigit d \<and> d \<noteq> CHR ''0''))))"
proof -
  have ex: "(case humanSizeStr 0 of (sizeStr, suffix) \<Rightarrow> dropDotZero sizeStr suffix) = ''0B''"
    "fst (humanSizeStr 1024) = ''1.0K''"
    "(case humanSizeStr 1024 of (sizeStr, suffix) \<Rightarrow> dropDotZero sizeStr suffix) = ''1K''"
    "(case humanSizeStr 1536 of (sizeStr, suffix) \<Rightarrow> dropDotZero sizeStr suffix) = ''1.5K''"
    by code_simp+
  have unf: "createListing_size options b
      = (case humanSizeStr b of (sizeStr, suffix) \<Rightarrow> dropDotZero sizeStr suffix)" for b
    using assms by (simp add: createListing_size_def)
  show ?thesis
    unfolding unf using ex humanSize_format[of bytes] by blast
qed

theorem createListing_size_human_witness:
  "human (zeroOptions \<lparr> human := True \<rparr>) \<and>
   createListing_size (zeroOptions \<lparr> human := True \<rparr>) 0 = ''0B'' \<and>
   createListing_size (zeroOptions \<lparr> human := True \<rparr>) 1024 = ''1K'' \<and>
   createListing_size (zeroOptions \<lparr> human := True \<rparr>) 1536 = ''1.5K'' \<and>
   createListing_size (zeroOptions \<lparr> human := True \<rparr>) 1048575 = ''1024K'' \<and>
   createListing_size (zeroOptions \<lparr> human := True \<rparr>) 123456789 = ''117.7M''"
proof -
  have h: "human (zeroOptions \<lparr> human := True \<rparr>)" by simp
  have more: "createListing_size (zeroOptions \<lparr> human := True \<rparr>) 1048575 = ''1024K''"
    "createListing_size (zeroOptions \<lparr> human := True \<rparr>) 123456789 = ''117.7M''"
    by code_simp+
  from createListing_size_human[OF h, of 0] h more show ?thesis by simp
qed

section \<open>The size order on plain byte counts\<close>

text \<open>
  Without the option \<^verbatim>\<open>human\<close> the size field is the byte count in decimal, and
  \<^verbatim>\<open>strconv.Atoi\<close> reads back what \<^verbatim>\<open>%d\<close> printed: there the size order is the
  descending order of the byte counts.
\<close>

lemma foldl_digits_ge:
  "n * 10 ^ length cs \<le> foldl (\<lambda>n ch. n * 10 + (byte ch - byte (CHR ''0''))) n cs"
proof (induction cs arbitrary: n)
  case Nil
  show ?case by simp
next
  case (Cons c cs)
  have "n * 10 ^ length (c # cs) = (n * 10) * 10 ^ length cs" by simp
  also have "\<dots> \<le> (n * 10 + (byte c - byte (CHR ''0''))) * 10 ^ length cs"
    by (rule mult_le_mono1) simp
  also have "\<dots> \<le> foldl (\<lambda>n ch. n * 10 + (byte ch - byte (CHR ''0'')))
      (n * 10 + (byte c - byte (CHR ''0''))) cs"
    by (rule Cons.IH)
  finally show ?case by simp
qed

lemma ParseUintLoop_digits:
  "list_all isDigit cs \<Longrightarrow>
   foldl (\<lambda>n ch. n * 10 + (byte ch - byte (CHR ''0''))) n cs \<le> 2 ^ 64 - 1 \<Longrightarrow>
     ParseUintLoop n cs = (foldl (\<lambda>n ch. n * 10 + (byte ch - byte (CHR ''0''))) n cs, None)"
proof (induction cs arbitrary: n)
  case Nil
  show ?case by simp
next
  case (Cons c cs)
  let ?step = "\<lambda>n ch. n * 10 + (byte ch - byte (CHR ''0''))"
  let ?n1 = "n * 10 + (byte c - byte (CHR ''0''))"
  from Cons.prems have d: "isDigit c" and ds: "list_all isDigit cs"
    and b: "foldl ?step ?n1 cs \<le> 2 ^ 64 - 1" by simp_all
  have "?n1 * 10 ^ length cs \<le> foldl ?step ?n1 cs" by (rule foldl_digits_ge)
  moreover have "?n1 \<le> ?n1 * 10 ^ length cs" by simp
  ultimately have n1: "?n1 \<le> 2 ^ 64 - 1" using b by linarith
  then have n: "\<not> n \<ge> (2 ^ 64 - 1) div 10 + 1" by simp
  from Cons.IH[OF ds b] d n n1 show ?case by (simp add: Let_def)
qed

lemma byte_digitChar:
  "0 \<le> d \<Longrightarrow> d < 10 \<Longrightarrow> int (byte (digitChar d) - byte (CHR ''0'')) = d"
  using digit_cases[of d] by (auto simp: digitChar_values byte_def)

lemma digitsValue_showDec: "0 \<le> n \<Longrightarrow> int (digitsValue (showDec n)) = n"
proof (induction n rule: showDec.induct)
  case (1 n)
  show ?case
  proof (cases "n < 10")
    case True
    with "1.prems" show ?thesis
      by (subst showDec.simps) (simp add: digitsValue_def byte_digitChar)
  next
    case False
    then have "0 \<le> n div 10" by simp
    from "1.IH"[OF False this]
    have ih: "int (digitsValue (showDec (n div 10))) = n div 10" .
    have "int (byte (digitChar (n mod 10)) - byte (CHR ''0'')) = n mod 10"
      by (rule byte_digitChar) simp_all
    with ih False show ?thesis
      unfolding digitsValue_def by (subst showDec.simps) simp
  qed
qed

lemma showDec_no_sign:
  assumes "0 \<le> n"
  shows "hd (showDec n) \<noteq> CHR ''-'' \<and> hd (showDec n) \<noteq> CHR ''+''"
proof -
  from showDec_digits[OF assms] have "isDigit (hd (showDec n))"
    by (cases "showDec n") simp_all
  then show ?thesis by (auto simp: isDigit_def byte_def)
qed

lemma ParseUint_showDec:
  assumes "0 \<le> n" and "n < 2 ^ 64"
  shows "ParseUint (showDec n) = (nat n, None)"
proof -
  from digitsValue_showDec[OF assms(1)] have v: "digitsValue (showDec n) = nat n" by linarith
  from assms have "nat n \<le> 2 ^ 64 - 1" by simp
  with v have "foldl (\<lambda>n ch. n * 10 + (byte ch - byte (CHR ''0''))) 0 (showDec n) \<le> 2 ^ 64 - 1"
    by (simp add: digitsValue_def)
  from ParseUintLoop_digits[OF _ this] showDec_digits[OF assms(1)] v
  show ?thesis by (simp add: ParseUint_def digitsValue_def)
qed

text \<open>\<^verbatim>\<open>strconv.Atoi\<close> reads back every \<^verbatim>\<open>int64\<close> that \<^verbatim>\<open>%d\<close> printed.\<close>

lemma Atoi_Itoa:
  assumes "- (2 ^ 63) \<le> n" and "n < 2 ^ 63"
  shows "Atoi (Itoa n) = n"
proof (cases "n < 0")
  case False
  then have n0: "0 \<le> n" by simp
  from assms(2) have "n < 2 ^ 64" by simp
  note p = ParseUint_showDec[OF n0 this]
  from assms(2) n0 have small: "\<not> 2 ^ 63 \<le> nat n" by simp
  from showDec_digits[OF n0] have ne: "showDec n \<noteq> []" by simp
  from showDec_no_sign[OF n0] have sign: "hd (showDec n) \<noteq> CHR ''-''"
    "hd (showDec n) \<noteq> CHR ''+''" by simp_all
  from False have "Atoi (Itoa n) = fst (ParseInt (showDec n))" by (simp add: Atoi_def Itoa_def)
  also from ne sign p small n0 have "\<dots> = n" by (simp add: ParseInt_def)
  finally show ?thesis .
next
  case True
  then have n0: "0 \<le> - n" by simp
  from assms(1) have "- n < 2 ^ 64" by simp
  note p = ParseUint_showDec[OF n0 this]
  from assms(1) True have small: "\<not> 2 ^ 63 < nat (- n)" by simp
  from True have "Atoi (Itoa n) = fst (ParseInt (CHR ''-'' # showDec (- n)))"
    by (simp add: Atoi_def Itoa_def)
  also from p small True have "\<dots> = n" by (simp add: ParseInt_def)
  finally show ?thesis .
qed

text \<open>
  With \<^verbatim>\<open>sortSize\<close> set, \<^verbatim>\<open>sortTime\<close> and \<^verbatim>\<open>human\<close> not set, listings whose size field
  \<^verbatim>\<open>createListing\<close> made from the byte counts \<open>bytes l\<close> come out in descending order
  of the byte counts (ascending with \<^verbatim>\<open>sortReverse\<close>).
\<close>

lemma sortListings_by_size_plain:
  fixes bytes :: "Listing \<Rightarrow> int"
  assumes "sortSize options" and "\<not> sortTime options" and "\<not> human options"
    and "\<forall>l \<in> set xs. size_l l = createListing_size options (bytes l)
           \<and> - (2 ^ 63) \<le> bytes l \<and> bytes l < 2 ^ 63"
  shows "\<exists>ys. sortListings options xs = Some ys \<and> mset ys = mset xs \<and>
           sorted_wrt (\<lambda>a b. bytes a \<ge> bytes b)
             (if sortReverse options then rev ys else ys)"
proof -
  from sortListings_by_Atoi[OF assms(1,2), of xs]
  obtain ys where ys: "sortListings options xs = Some ys" "mset ys = mset xs"
    "sorted_wrt (\<lambda>a b. Atoi (size_l a) \<ge> Atoi (size_l b))
       (if sortReverse options then rev ys else ys)" by blast
  from ys(2) have "set ys = set xs" by (rule mset_eq_setD)
  with assms(3,4) have k: "Atoi (size_l l) = bytes l" if "l \<in> set ys" for l
    using that by (simp add: createListing_size_def Atoi_Itoa)
  have "sorted_wrt (\<lambda>a b. bytes a \<ge> bytes b) (if sortReverse options then rev ys else ys)"
    by (rule sorted_wrt_mono_rel[OF _ ys(3)]) (auto simp: k split: if_splits)
  with ys(1,2) show ?thesis by blast
qed

lemma sortListings_by_size_plain_example:
  "sortListings (zeroOptions \<lparr> sortSize := True \<rparr>) [sized ''5'', sized ''10'']
     = Some [sized ''10'', sized ''5'']"
proof -
  have a: "Atoi ''5'' = 5" "Atoi ''10'' = 10"
    by (simp_all add: Atoi_def ParseInt_def ParseUint_def isDigit_def byte_def)
  have c1: "compareSize (sized ''5'') (sized ''10'') = 1"
    and c2: "compareSize (sized ''10'') (sized ''5'') = - 1"
    by (simp_all add: compareSize_def sized_def zeroListing_def a)
  have p1: "bubblePass compareSize 0 [sized ''5'', sized ''10''] True
      = ([sized ''10'', sized ''5''], False)"
    by (simp add: bubblePass.simps c1)
  have p2: "bubblePass compareSize 0 [sized ''10'', sized ''5''] True
      = ([sized ''10'', sized ''5''], True)"
    by (simp add: bubblePass.simps c2)
  have "sortLoop compareSize [sized ''10'', sized ''5''] = Some [sized ''10'', sized ''5'']"
    by (subst sortLoop.simps) (simp add: p2)
  then have "sortLoop compareSize [sized ''5'', sized ''10''] = Some [sized ''10'', sized ''5'']"
    by (subst sortLoop.simps) (simp add: p1)
  then show ?thesis by (simp add: sortListings_def zeroOptions_def)
qed

section \<open>The color of a name\<close>

lemma Split_nonempty: "Split s sep \<noteq> []"
  by (induction s) (auto split: list.splits)

lemma Split_length_gt1: "1 < length (Split s sep) \<longleftrightarrow> sep \<in> set s"
proof (induction s)
  case Nil
  then show ?case by simp
next
  case (Cons x xs)
  obtain w ws where ws: "Split xs sep = w # ws"
    using Split_nonempty[of xs sep] by (cases "Split xs sep") auto
  with Cons show ?case by auto
qed

lemma Split_last: "last (Split s sep) = rev (takeWhile (\<lambda>c. c \<noteq> sep) (rev s))"
proof (induction s)
  case Nil
  then show ?case by simp
next
  case (Cons x xs)
  obtain w ws where ws: "Split xs sep = w # ws"
    using Split_nonempty[of xs sep] by (cases "Split xs sep") auto
  show ?case
  proof (cases "sep \<in> set xs")
    case True
    then have tw: "takeWhile (\<lambda>c. c \<noteq> sep) (rev xs @ [x]) = takeWhile (\<lambda>c. c \<noteq> sep) (rev xs)"
      by (intro takeWhile_append1[of sep]) auto
    from True ws have "ws \<noteq> []" using Split_length_gt1[of xs sep] by auto
    with ws have "last (Split (x # xs) sep) = last (Split xs sep)" by auto
    with Cons tw show ?thesis by simp
  next
    case False
    then have tw: "takeWhile (\<lambda>c. c \<noteq> sep) (rev xs @ [x])
        = rev xs @ takeWhile (\<lambda>c. c \<noteq> sep) [x]"
      by (intro takeWhile_append2) auto
    from False ws have wsn: "ws = []" "w = xs"
      using Split_no_sep[of sep xs] by auto
    have r: "rev (takeWhile (\<lambda>c. c \<noteq> sep) (rev (x # xs)))
        = rev (rev xs @ takeWhile (\<lambda>c. c \<noteq> sep) [x])"
      by (simp only: rev.simps tw)
    show ?thesis
    proof (cases "x = sep")
      case True
      with wsn ws have "last (Split (x # xs) sep) = xs" by simp
      moreover from True have "rev (rev xs @ takeWhile (\<lambda>c. c \<noteq> sep) [x]) = xs" by simp
      ultimately show ?thesis by (simp only: r)
    next
      case False
      with wsn ws have "last (Split (x # xs) sep) = x # xs" by simp
      moreover from False have "rev (rev xs @ takeWhile (\<lambda>c. c \<noteq> sep) [x]) = x # xs" by simp
      ultimately show ?thesis by (simp only: r)
    qed
  qed
qed

lemma extensionStr_glob:
  "extensionStr n = (case extensionGlob n of Some glob \<Rightarrow> glob | None \<Rightarrow> [])"
proof -
  have "Split n (CHR ''.'') ! (length (Split n (CHR ''.'')) - 1) = last (Split n (CHR ''.''))"
    using Split_nonempty[of n "CHR ''.''"] by (simp add: last_conv_nth)
  then show ?thesis
    using Split_length_gt1[of n "CHR ''.''"]
    by (simp add: extensionStr_def extensionGlob_def Let_def Split_last)
qed

lemma permIs_in_range: "i < length (permissions l) \<Longrightarrow> permIs l i c = Inr (permissions l ! i = c)"
  by (simp add: permIs_def index_def bindP_def)

lemma andP_Inr: "andP (Inr b) x = (if b then x else Inr False)"
  by (simp add: andP_def)

lemma ifP_Inr: "ifP (Inr b) t e = (if b then t else e)"
  by (simp add: ifP_def)

lemma chooseColor_classify:
  assumes len: "7 \<le> length (permissions l)"
    and dir: "permissions l ! 0 = CHR ''d'' \<longrightarrow> 10 \<le> length (permissions l)"
  shows "chooseColor colorMap l =
           Inr (case classify colorMap l of
                  None \<Rightarrow> ([], False)
                | Some key \<Rightarrow> (lookup colorMap key, True))"
proof -
  from len have h: "0 < length (permissions l)" "3 < length (permissions l)"
    "6 < length (permissions l)" by linarith+
  have p: "permIs l 0 c = Inr (permissions l ! 0 = c)"
    "permIs l 3 c = Inr (permissions l ! 3 = c)"
    "permIs l 6 c = Inr (permissions l ! 6 = c)" for c
    by (rule permIs_in_range[OF h(1)], rule permIs_in_range[OF h(2)],
        rule permIs_in_range[OF h(3)])
  show ?thesis
  proof (cases "extensionGlob (name l)")
    case None
    then have ext: "extensionStr (name l) = []" by (simp add: extensionStr_glob)
    show ?thesis
    proof (cases "permissions l ! 0 = CHR ''d''")
      case True
      with dir have h2: "8 < length (permissions l)" "9 < length (permissions l)" by auto
      have q: "permIs l 8 c = Inr (permissions l ! 8 = c)"
        "permIs l 9 c = Inr (permissions l ! 9 = c)" for c
        by (rule permIs_in_range[OF h2(1)], rule permIs_in_range[OF h2(2)])
      from True show ?thesis
        by (simp add: chooseColor_def classify_def Let_def None ext p q andP_Inr ifP_Inr)
    next
      case False
      then show ?thesis
        by (simp add: chooseColor_def classify_def Let_def None ext p andP_Inr ifP_Inr)
    qed
  next
    case (Some glob)
    then have ext: "extensionStr (name l) = glob" by (simp add: extensionStr_glob)
    from Some have ne: "glob \<noteq> []" by (auto simp: extensionGlob_def split: if_splits)
    show ?thesis
    proof (cases "lookup colorMap glob \<noteq> []")
      case True
      with ne show ?thesis
        by (simp add: chooseColor_def classify_def Let_def Some ext)
    next
      case nomatch: False
      show ?thesis
      proof (cases "permissions l ! 0 = CHR ''d''")
        case True
        with dir have h2: "8 < length (permissions l)" "9 < length (permissions l)" by auto
        have q: "permIs l 8 c = Inr (permissions l ! 8 = c)"
          "permIs l 9 c = Inr (permissions l ! 9 = c)" for c
          by (rule permIs_in_range[OF h2(1)], rule permIs_in_range[OF h2(2)])
        from True nomatch show ?thesis
          by (simp add: chooseColor_def classify_def Let_def Some ext p q andP_Inr ifP_Inr)
      next
        case False
        with nomatch show ?thesis
          by (simp add: chooseColor_def classify_def Let_def Some ext p andP_Inr ifP_Inr)
      qed
    qed
  qed
qed

lemma extensionGlob_not_directory: "extensionGlob n \<noteq> Some ''directory''"
  by (simp add: extensionGlob_def)

lemma classify_sticky_world_writable:
  assumes "permissions l ! 0 = CHR ''d''" "permissions l ! 8 = CHR ''w''"
    "permissions l ! 9 = CHR ''t''"
  shows "classify colorMap l \<noteq> Some ''directory''"
    and "extensionStr (name l) = [] \<or> lookup colorMap (extensionStr (name l)) = [] \<Longrightarrow>
           classify colorMap l = Some ''directory_o+w_sticky''"
proof -
  show "classify colorMap l \<noteq> Some ''directory''"
    using assms extensionGlob_not_directory[of "name l"]
    by (cases "extensionGlob (name l)") (auto simp: classify_def Let_def)
  assume "extensionStr (name l) = [] \<or> lookup colorMap (extensionStr (name l)) = []"
  then show "classify colorMap l = Some ''directory_o+w_sticky''"
    using assms
    by (cases "extensionGlob (name l)")
       (auto simp: classify_def Let_def extensionStr_glob extensionGlob_def split: if_splits)
qed

text \<open>
  Claim C2, as the code has it. With color output enabled, \<^verbatim>\<open>writeListingName\<close> writes
  the table entry of the category that the first matching rule of the fixed order selects,
  then the name, then the \<^verbatim>\<open>end\<close> entry, and only the name when no rule matches: one
  entry at most stands before the name. (In long mode the target of a symbolic link
  follows.) A directory with \<^verbatim>\<open>w\<close> at position 8 and \<^verbatim>\<open>t\<close> at position 9 is never given
  the category of a plain directory; it is given \<^verbatim>\<open>directory_o+w_sticky\<close> unless the
  first rule, the extension glob, matches, and then it is given the entry of the glob. The
  permission string is assumed long enough for the positions the chain reads: seven
  characters, and ten for a directory.
\<close>

theorem writeListingName_precedence:
  assumes "color options"
    and "7 \<le> length (permissions l)"
    and "permissions l ! 0 = CHR ''d'' \<longrightarrow> 10 \<le> length (permissions l)"
  shows "writeListingName options colorMap l =
           Inr ((case classify colorMap l of
                   None \<Rightarrow> name l
                 | Some key \<Rightarrow> lookup colorMap key @ name l @ lookup colorMap ''end'')
                @ linkSuffix options colorMap l) \<and>
         (permissions l ! 0 = CHR ''d'' \<and> permissions l ! 8 = CHR ''w''
            \<and> permissions l ! 9 = CHR ''t'' \<longrightarrow>
            classify colorMap l \<noteq> Some ''directory'' \<and>
            (extensionStr (name l) = [] \<or> lookup colorMap (extensionStr (name l)) = [] \<longrightarrow>
               classify colorMap l = Some ''directory_o+w_sticky''))"
proof -
  from assms(2) have "0 < length (permissions l)" by linarith
  then have p0: "permIs l 0 c = Inr (permissions l ! 0 = c)" for c
    by (rule permIs_in_range)
  have "writeListingName options colorMap l =
           Inr ((case classify colorMap l of
                   None \<Rightarrow> name l
                 | Some key \<Rightarrow> lookup colorMap key @ name l @ lookup colorMap ''end'')
                @ linkSuffix options colorMap l)"
    using assms(1)
    by (cases "classify colorMap l")
       (simp_all add: writeListingName_def chooseColor_classify[OF assms(2,3)] bindP_def
          p0 andP_Inr ifP_Inr linkSuffix_def)
  with classify_sticky_world_writable[of l colorMap] show ?thesis by blast
qed

theorem writeListingName_precedence_witness:
  "writeListingName (zeroOptions \<lparr> color := True \<rparr>)
     [''directory'' \<mapsto> ''<dir>'', ''directory_o+w_sticky'' \<mapsto> ''<tw>'', ''end'' \<mapsto> ''<end>'']
     (zeroListing \<lparr> permissions := ''drwxrwxrwt'', name := ''tmp'' \<rparr>)
   = Inr ''<tw>tmp<end>'' \<and>
   writeListingName (zeroOptions \<lparr> color := True \<rparr>)
     [''directory'' \<mapsto> ''<dir>'', ''*.d'' \<mapsto> ''<ext>'', ''end'' \<mapsto> ''<end>'']
     (zeroListing \<lparr> permissions := ''drwxr-xr-x'', name := ''conf.d'' \<rparr>)
   = Inr ''<ext>conf.d<end>''"
proof -
  let ?o = "zeroOptions \<lparr> color := True \<rparr>"
  let ?m1 = "[''directory'' \<mapsto> ''<dir>'', ''directory_o+w_sticky'' \<mapsto> ''<tw>'', ''end'' \<mapsto> ''<end>'']"
  let ?l1 = "zeroListing \<lparr> permissions := ''drwxrwxrwt'', name := ''tmp'' \<rparr>"
  let ?m2 = "[''directory'' \<mapsto> ''<dir>'', ''*.d'' \<mapsto> ''<ext>'', ''end'' \<mapsto> ''<end>'']"
  let ?l2 = "zeroListing \<lparr> permissions := ''drwxr-xr-x'', name := ''conf.d'' \<rparr>"
  have o: "color ?o" by simp
  have c1: "classify ?m1 ?l1 = Some ''directory_o+w_sticky''"
    by (simp add: classify_def extensionGlob_def zeroListing_def Let_def)
  have c2: "classify ?m2 ?l2 = Some ''*.d''"
    by (simp add: classify_def extensionGlob_def zeroListing_def Let_def lookup_def)
  have s: "linkSuffix ?o m ?l1 = []" "linkSuffix ?o m ?l2 = []" for m
    by (simp_all add: linkSuffix_def zeroListing_def)
  have n: "name ?l1 = ''tmp''" "name ?l2 = ''conf.d''" by simp_all
  have h1: "7 \<le> length (permissions ?l1)"
    "permissions ?l1 ! 0 = CHR ''d'' \<longrightarrow> 10 \<le> length (permissions ?l1)" by simp_all
  have h2: "7 \<le> length (permissions ?l2)"
    "permissions ?l2 ! 0 = CHR ''d'' \<longrightarrow> 10 \<le> length (permissions ?l2)" by simp_all
  have 1: "writeListingName ?o ?m1 ?l1 = Inr ''<tw>tmp<end>''"
    using writeListingName_precedence[OF o h1, of ?m1, THEN conjunct1]
    unfolding c1 s n by (simp add: lookup_def)
  have 2: "writeListingName ?o ?m2 ?l2 = Inr ''<ext>conf.d<end>''"
    using writeListingName_precedence[OF o h2, of ?m2, THEN conjunct1]
    unfolding c2 s n by (simp add: lookup_def)
  from 1 2 show ?thesis by simp
qed

text \<open>
  The claim as worded, that every directory with \<^verbatim>\<open>w\<close> at position 8 and \<^verbatim>\<open>t\<close> at
  position 9 is colored with the \<^verbatim>\<open>directory_o+w_sticky\<close> entry, fails where the first
  rule of the order matches: the sticky world-writable directory \<^verbatim>\<open>tmp.d\<close> is written
  with the entry of \<^verbatim>\<open>*.d\<close> when the table has one, and the \<^verbatim>\<open>directory_o+w_sticky\<close>
  entry is not written.
\<close>

theorem writeListingName_sticky_extension_counterexample:
  "writeListingName (zeroOptions \<lparr> color := True \<rparr>)
     [''directory'' \<mapsto> ''<dir>'', ''directory_o+w_sticky'' \<mapsto> ''<tw>'',
      ''*.d'' \<mapsto> ''<ext>'', ''end'' \<mapsto> ''<end>'']
     (zeroListing \<lparr> permissions := ''drwxrwxrwt'', name := ''tmp.d'' \<rparr>)
   = Inr ''<ext>tmp.d<end>'' \<and>
   ''drwxrwxrwt'' ! 0 = CHR ''d'' \<and> ''drwxrwxrwt'' ! 8 = CHR ''w'' \<and>
   ''drwxrwxrwt'' ! 9 = CHR ''t''"
proof -
  have "writeListingName (zeroOptions \<lparr> color := True \<rparr>)
     [''directory'' \<mapsto> ''<dir>'', ''directory_o+w_sticky'' \<mapsto> ''<tw>'',
      ''*.d'' \<mapsto> ''<ext>'', ''end'' \<mapsto> ''<end>'']
     (zeroListing \<lparr> permissions := ''drwxrwxrwt'', name := ''tmp.d'' \<rparr>)
   = Inr ''<ext>tmp.d<end>''"
    by code_simp
  then show ?thesis by simp
qed

section \<open>The rows of the grid\<close>

lemma specNumCols_pos: "ls \<noteq> [] \<Longrightarrow> 0 < R \<Longrightarrow> 0 < specNumCols ls R"
proof -
  assume "ls \<noteq> []" "0 < R"
  then have "0 < rat_of_nat (length ls) / rat_of_nat R" by simp
  then have "0 < \<lceil>rat_of_nat (length ls) / rat_of_nat R\<rceil>" by (simp add: ceiling_less_iff)
  then show ?thesis by (simp add: specNumCols_def)
qed

lemma specNumCols_one: "ls \<noteq> [] \<Longrightarrow> length ls \<le> R \<Longrightarrow> specNumCols ls R = 1"
proof -
  assume ne: "ls \<noteq> []" and le: "length ls \<le> R"
  then have R: "0 < R" by (cases ls) auto
  with le have "rat_of_nat (length ls) / rat_of_nat R \<le> 1" by (simp add: divide_le_eq)
  then have "\<lceil>rat_of_nat (length ls) / rat_of_nat R\<rceil> \<le> 1" by (simp add: ceiling_le_iff)
  then have "specNumCols ls R \<le> 1" unfolding specNumCols_def by linarith
  with specNumCols_pos[OF ne R] show ?thesis by simp
qed

lemma column_in_range:
  assumes "0 < R" and "p < length ls"
  shows "p div R < specNumCols ls R"
proof -
  have "(p div R) * R \<le> p" by simp
  also note assms(2)
  finally have "rat_of_nat ((p div R) * R) < rat_of_nat (length ls)" by (simp only: of_nat_less_iff)
  then have "rat_of_nat (p div R) * rat_of_nat R < rat_of_nat (length ls)" by simp
  with assms(1) have "rat_of_nat (p div R) < rat_of_nat (length ls) / rat_of_nat R"
    by (simp add: pos_less_divide_eq)
  then have "of_int (int (p div R)) < rat_of_nat (length ls) / rat_of_nat R" by simp
  then have "int (p div R) < \<lceil>rat_of_nat (length ls) / rat_of_nat R\<rceil>"
    by (simp only: less_ceiling_iff)
  then show ?thesis unfolding specNumCols_def by linarith
qed

lemma columnUpTo_finite: "finite (columnUpTo i R c)"
  by (simp add: columnUpTo_def)

lemma columnUpTo_Suc:
  "columnUpTo (Suc i) R c =
     (if i div R = c then insert i (columnUpTo i R c) else columnUpTo i R c)"
  by (auto simp: columnUpTo_def less_Suc_eq)

lemma columnUpTo_fresh: "i \<notin> columnUpTo i R c"
  by (simp add: columnUpTo_def)

lemma columnUpTo_all: "columnUpTo (length ls) R c = specColumn ls R c"
  by (simp add: columnUpTo_def specColumn_def)

lemma width_step:
  fixes w :: "nat \<Rightarrow> nat"
  shows "Max (insert 0 (w ` insert i (columnUpTo i R c)))
     = (if Max (insert 0 (w ` columnUpTo i R c)) < w i then w i
        else Max (insert 0 (w ` columnUpTo i R c)))"
proof -
  have fin: "finite (insert 0 (w ` columnUpTo i R c))" by (simp add: columnUpTo_finite)
  have "insert 0 (w ` insert i (columnUpTo i R c)) = insert (w i) (insert 0 (w ` columnUpTo i R c))"
    by auto
  then have "Max (insert 0 (w ` insert i (columnUpTo i R c)))
      = max (w i) (Max (insert 0 (w ` columnUpTo i R c)))"
    using fin by (simp only: Max_insert[OF fin] insert_not_empty not_False_eq_True)
  then show ?thesis by (simp add: max_def)
qed

lemma columnLoop_spec:
  assumes R: "0 < R"
    and i: "i \<le> length ls"
    and len: "length cw = specNumCols ls R" "length cl = specNumCols ls R"
    and inv: "\<forall>c < specNumCols ls R.
        cw ! c = Max (insert 0 ((\<lambda>p. length (name (ls ! p))) ` columnUpTo i R c))
        \<and> cl ! c = card (columnUpTo i R c)"
  shows "columnLoop i R ls (cw, cl)
     = Inr (map (specColWidth ls R) [0..<specNumCols ls R],
            map (specColCount ls R) [0..<specNumCols ls R])"
  using i len inv
proof (induction "length ls - i" arbitrary: i cw cl)
  case 0
  then have i: "i = length ls" by simp
  have "cw = map (specColWidth ls R) [0..<specNumCols ls R]"
    by (rule nth_equalityI)
       (use "0.prems" i in \<open>simp_all add: specColWidth_def columnUpTo_all\<close>)
  moreover have "cl = map (specColCount ls R) [0..<specNumCols ls R]"
    by (rule nth_equalityI)
       (use "0.prems" i in \<open>simp_all add: specColCount_def columnUpTo_all\<close>)
  moreover have "columnLoop i R ls (cw, cl) = Inr (cw, cl)"
    using i by (subst columnLoop.simps) simp
  ultimately show ?case by simp
next
  case (Suc k)
  then have lt: "i < length ls" by simp
  let ?w = "\<lambda>p. length (name (ls ! p))"
  let ?col = "i div R"
  from column_in_range[OF R lt] have col: "?col < specNumCols ls R" .
  let ?cw = "if cw ! ?col < ?w i then cw[?col := ?w i] else cw"
  let ?cl = "cl[?col := cl ! ?col + 1]"
  have step: "columnLoop i R ls (cw, cl) = columnLoop (i + 1) R ls (?cw, ?cl)"
    using lt col Suc.prems(2,3) by (subst columnLoop.simps) (simp add: Let_def)
  have inv': "\<forall>c < specNumCols ls R.
        ?cw ! c = Max (insert 0 (?w ` columnUpTo (i + 1) R c))
        \<and> ?cl ! c = card (columnUpTo (i + 1) R c)"
  proof (intro allI impI)
    fix c assume c: "c < specNumCols ls R"
    with Suc.prems(4) have old: "cw ! c = Max (insert 0 (?w ` columnUpTo i R c))"
      "cl ! c = card (columnUpTo i R c)" by simp_all
    show "?cw ! c = Max (insert 0 (?w ` columnUpTo (i + 1) R c))
        \<and> ?cl ! c = card (columnUpTo (i + 1) R c)"
    proof (cases "c = ?col")
      case True
      have "?cw ! c = (if cw ! c < ?w i then ?w i else cw ! c)"
        using True col Suc.prems(2) by simp
      also have "\<dots> = Max (insert 0 (?w ` insert i (columnUpTo i R c)))"
        unfolding old(1) by (rule width_step[symmetric])
      finally have 1: "?cw ! c = Max (insert 0 (?w ` columnUpTo (i + 1) R c))"
        using True by (simp add: columnUpTo_Suc)
      have "?cl ! c = card (columnUpTo i R c) + 1"
        using True col Suc.prems(3) old(2) by simp
      also have "\<dots> = card (insert i (columnUpTo i R c))"
        by (simp add: columnUpTo_finite columnUpTo_fresh)
      finally have 2: "?cl ! c = card (columnUpTo (i + 1) R c)"
        using True by (simp add: columnUpTo_Suc)
      from 1 2 show ?thesis by simp
    next
      case False
      then have "columnUpTo (i + 1) R c = columnUpTo i R c" by (simp add: columnUpTo_Suc)
      moreover from False have "?cw ! c = cw ! c" "?cl ! c = cl ! c" by simp_all
      ultimately show ?thesis using old by simp
    qed
  qed
  have "columnLoop (i + 1) R ls (?cw, ?cl)
     = Inr (map (specColWidth ls R) [0..<specNumCols ls R],
            map (specColCount ls R) [0..<specNumCols ls R])"
  proof (rule Suc.hyps(1))
    show "k = length ls - (i + 1)" using Suc.hyps(2) by simp
    show "i + 1 \<le> length ls" using lt by simp
    show "length ?cw = specNumCols ls R" using Suc.prems(2) by simp
    show "length ?cl = specNumCols ls R" using Suc.prems(3) by simp
    show "\<forall>c < specNumCols ls R.
        ?cw ! c = Max (insert 0 (?w ` columnUpTo (i + 1) R c))
        \<and> ?cl ! c = card (columnUpTo (i + 1) R c)" by (rule inv')
  qed
  with step show ?case by simp
qed

lemma columnLoop_from_zero:
  assumes "0 < R"
  shows "columnLoop 0 R ls (replicate (specNumCols ls R) 0, replicate (specNumCols ls R) 0)
     = Inr (specColWidths ls R, map (specColCount ls R) [0..<specNumCols ls R])"
  unfolding specColWidths_def
  by (rule columnLoop_spec[OF assms]) (simp_all add: columnUpTo_def)

lemma short_last_column:
  assumes "ls \<noteq> []" and "0 < R"
  shows "(let colListings = map (specColCount ls R) [0..<specNumCols ls R];
              listingsInFirstCol = colListings ! 0;
              listingsInLastCol = colListings ! (length colListings - 1)
          in listingsInLastCol \<le> listingsInFirstCol div 2
             \<and> int listingsInFirstCol - int listingsInLastCol \<ge> 5)
         = specShortLastColumn ls R"
proof -
  from specNumCols_pos[OF assms] have pos: "0 < specNumCols ls R" .
  then have "map (specColCount ls R) [0..<specNumCols ls R] ! 0 = specColCount ls R 0"
    "map (specColCount ls R) [0..<specNumCols ls R] ! (specNumCols ls R - 1)
       = specColCount ls R (specNumCols ls R - 1)"
    by (simp_all del: upt_Suc)
  then show ?thesis
    unfolding specShortLastColumn_def Let_def by (simp del: upt_Suc) linarith
qed

lemma gridRows_step:
  assumes "ls \<noteq> []" and "0 < R"
  shows "gridRows ls tw R =
     (if specRowWidth ls R > tw \<and> length ls \<le> R then Inr (R, specColWidths ls R)
      else if specRowWidth ls R > tw then gridRows ls tw (R + 1)
      else if specShortLastColumn ls R then gridRows ls tw (R + 1)
      else Inr (R, specColWidths ls R))"
proof -
  from specNumCols_pos[OF assms] have pos: "0 < specNumCols ls R" .
  then have ne: "map (specColCount ls R) [0..<specNumCols ls R] \<noteq> []" by simp
  have nc: "nat \<lceil>rat_of_nat (length ls) / rat_of_nat R\<rceil> = specNumCols ls R"
    by (simp add: specNumCols_def)
  show ?thesis
    apply (subst gridRows.simps)
    unfolding nc Let_def columnLoop_from_zero[OF assms(2)]
    using short_last_column[OF assms, unfolded Let_def] ne
    by (simp add: specRowWidth_def del: upt_Suc)
qed

lemma specShortLastColumn_single:
  assumes "ls \<noteq> []" and "length ls \<le> R"
  shows "\<not> specShortLastColumn ls R"
  by (simp add: specShortLastColumn_def specNumCols_one[OF assms])

lemma gridRows_total:
  assumes "ls \<noteq> []" and "0 < R"
  shows "\<exists>R'. gridRows ls tw R = Inr (R', specColWidths ls R') \<and> R \<le> R'"
  using assms(2)
proof (induction "length ls - R" arbitrary: R rule: less_induct)
  case less
  note step = gridRows_step[OF assms(1) less.prems, of tw]
  show ?case
  proof (cases "(specRowWidth ls R > tw \<and> \<not> length ls \<le> R)
      \<or> (\<not> specRowWidth ls R > tw \<and> specShortLastColumn ls R)")
    case True
    have lt: "R < length ls"
    proof (rule ccontr)
      assume "\<not> R < length ls"
      then have le: "length ls \<le> R" by simp
      with True have "specShortLastColumn ls R" by auto
      with specShortLastColumn_single[OF assms(1) le] show False by simp
    qed
    from True have "gridRows ls tw R = gridRows ls tw (R + 1)"
      by (subst step) auto
    moreover from lt have "length ls - (R + 1) < length ls - R" by simp
    from less.hyps[OF this] obtain R' where
      "gridRows ls tw (R + 1) = Inr (R', specColWidths ls R')" "R + 1 \<le> R'" by auto
    ultimately show ?thesis by auto
  next
    case False
    then have "gridRows ls tw R = Inr (R, specColWidths ls R)"
      by (subst step) auto
    then show ?thesis by auto
  qed
qed

text \<open>
  Claim C1. For a non-empty list of entries, any terminal width and a candidate row count
  \<open>R \<ge> 1\<close>, one round of the search in grid mode does what the specification says: the
  column widths it computes are the largest name lengths of the columns \<open>p div R\<close>, and
  with the row width made of them and two separator characters between columns, the
  search goes on to \<open>R + 1\<close> when the row is too wide and \<open>R < n\<close>, accepts \<open>R\<close> when it
  is too wide and \<open>R \<ge> n\<close>, and when the row fits goes on to \<open>R + 1\<close> exactly when the
  last column is short, accepting \<open>R\<close> otherwise. The search starts at \<open>R = 1\<close> and always
  ends, without leaving a slice, with an accepted row count and the widths of its columns.
\<close>

theorem gridRows_selection:
  assumes "listings \<noteq> []" and "1 \<le> R"
  shows "gridLayout listings terminalWidth = gridRows listings terminalWidth 1 \<and>
         gridRows listings terminalWidth R =
           (if specRowWidth listings R > terminalWidth \<and> R < length listings then
              gridRows listings terminalWidth (R + 1)
            else if specRowWidth listings R > terminalWidth then
              Inr (R, specColWidths listings R)
            else if specShortLastColumn listings R then
              gridRows listings terminalWidth (R + 1)
            else Inr (R, specColWidths listings R)) \<and>
         (\<exists>R'. gridRows listings terminalWidth R = Inr (R', specColWidths listings R') \<and> R \<le> R')"
proof -
  from assms(2) have R: "0 < R" by simp
  have "gridRows listings terminalWidth R =
           (if specRowWidth listings R > terminalWidth \<and> R < length listings then
              gridRows listings terminalWidth (R + 1)
            else if specRowWidth listings R > terminalWidth then
              Inr (R, specColWidths listings R)
            else if specShortLastColumn listings R then
              gridRows listings terminalWidth (R + 1)
            else Inr (R, specColWidths listings R))"
    by (subst gridRows_step[OF assms(1) R]) auto
  with gridRows_total[OF assms(1) R, of terminalWidth] show ?thesis
    by (simp add: gridLayout_def)
qed

theorem gridRows_selection_witness:
  "gridLayout (map named [''a'', ''bb'', ''ccc'', ''d'', ''ee'']) 10 = Inr (3, [3, 2]) \<and>
   specRowWidth (map named [''a'', ''bb'', ''ccc'', ''d'', ''ee'']) 1 = 17 \<and>
   specRowWidth (map named [''a'', ''bb'', ''ccc'', ''d'', ''ee'']) 2 = 11 \<and>
   specRowWidth (map named [''a'', ''bb'', ''ccc'', ''d'', ''ee'']) 3 = 7"
proof -
  let ?ls = "map named [''a'', ''bb'', ''ccc'', ''d'', ''ee'']"
  have ne: "?ls \<noteq> []" by simp
  have len: "length ?ls = 5" by simp
  have w: "specRowWidth ?ls 1 = 17" "specRowWidth ?ls 2 = 11" "specRowWidth ?ls 3 = 7"
    by code_simp+
  have s: "specShortLastColumn ?ls 3 = False" by code_simp
  have c: "specColWidths ?ls 3 = [3, 2]" by code_simp
  have n: "(1::nat) + 1 = 2" "(2::nat) + 1 = 3" by simp_all
  have r1: "gridRows ?ls 10 1 = gridRows ?ls 10 2"
    using gridRows_selection[OF ne, of 1 10, THEN conjunct2, THEN conjunct1]
    unfolding w len n by simp
  have r2: "gridRows ?ls 10 2 = gridRows ?ls 10 3"
    using gridRows_selection[OF ne, of 2 10, THEN conjunct2, THEN conjunct1]
    unfolding w len n by simp
  have r3: "gridRows ?ls 10 3 = Inr (3, [3, 2])"
    using gridRows_selection[OF ne, of 3 10, THEN conjunct2, THEN conjunct1]
    unfolding w len s c by simp
  have "gridLayout ?ls 10 = gridRows ?ls 10 1"
    using gridRows_selection[OF ne, of 1 10, THEN conjunct1] by simp
  with r1 r2 r3 w show ?thesis by simp
qed

end
